theory Spec2Isabelle
  imports Main
begin

section \<open>Values, programs and the store of promise cells\<close>

text \<open>
  The module \<^verbatim>\<open>callbackless.js\<close> builds promise cells as closures over private
  variables and wires them together with callbacks. The embedding keeps that shape:
  the private variables of a cell are a record in a store, a promise value is the
  index of its record, and JavaScript code (callbacks, user functions, the bodies of
  the combinators) is a term of the datatype \<open>prog\<close> that an interpreter runs on
  the store. Values are first order: a function is never stored as promise data.
\<close>

datatype val =
    VUndefined
  | VNull
  | VBool bool
  | VNum int
  | VStr string
  | VPromise nat
  | VArray "val list"

text \<open>
  One constructor per operation of a promise object, plus sequencing, \<^verbatim>\<open>throw\<close>,
  local variables captured by closures (\<open>NewVar\<close>, \<open>ReadVar\<close>, \<open>WriteVar\<close>)
  and an output channel (\<open>Log\<close>) that stands for any externally visible effect of a
  user callback. A callback is a function from its argument list to a program.
\<close>

datatype prog =
    Return val
  | Throw val
  | Bind prog "val \<Rightarrow> prog"
  | NewPromise "(val list \<Rightarrow> prog) option option"
  | GetState val
  | GetData val
  | Succeed val "val list \<Rightarrow> prog"
  | Fail val "val list \<Rightarrow> prog"
  | Finish val "val list \<Rightarrow> prog"
  | NotifySuccess val val
  | NotifyFailure val val
  | NewVar val "nat \<Rightarrow> prog"
  | ReadVar nat
  | WriteVar nat val
  | Log val

type_synonym callback = "val list \<Rightarrow> prog"

datatype pstate = PENDING | SUCCEEDED | FAILED

record cell =
  p_state :: pstate
  p_data :: val
  p_error :: val
  successListeners :: "callback list"
  failureListeners :: "callback list"
  finishListeners :: "callback list"
  p_options :: "callback option"

record world =
  cells :: "cell list"
  vars :: "val list"
  logged :: "val list"

datatype outcome = Done val | Thrown val | OutOfFuel

datatype channel = SuccessCh | FailureCh | FinishCh

fun state_name :: "pstate \<Rightarrow> val" where
  "state_name PENDING = VStr ''PENDING''"
| "state_name SUCCEEDED = VStr ''SUCCEEDED''"
| "state_name FAILED = VStr ''FAILED''"

text \<open>The n-th actual parameter of a call; a missing one reads as \<^verbatim>\<open>undefined\<close>.\<close>

definition arg :: "nat \<Rightarrow> val list \<Rightarrow> val" where
  "arg i args = (if i < length args then args ! i else VUndefined)"

text \<open>\<^verbatim>\<open>function __errorToData__(error) { return null; }\<close>\<close>

definition errorToData_default :: callback where
  "errorToData_default = (\<lambda>args. Return VNull)"

text \<open>
  The private variables of \<^verbatim>\<open>promise(options)\<close> at creation. The argument is
  \<open>None\<close> when no options object is passed, \<open>Some None\<close> for an options object
  without an \<^verbatim>\<open>__errorToData__\<close> property and \<open>Some (Some g)\<close> for one that has it.
\<close>

definition new_cell :: "callback option option \<Rightarrow> cell" where
  "new_cell options =
     \<lparr> p_state = PENDING, p_data = VUndefined, p_error = VUndefined,
       successListeners = [], failureListeners = [], finishListeners = [],
       p_options = (case options of None \<Rightarrow> Some errorToData_default | Some ob \<Rightarrow> ob) \<rparr>"

definition type_error :: val where
  "type_error = VStr ''TypeError''"

definition not_pending_error :: val where
  "not_pending_error = VStr ''The promise is not in PENDING state''"

definition pending_error :: val where
  "pending_error = VStr ''The promise is in PENDING state''"

text \<open>The cell a value denotes, if it is a promise of the store.\<close>

fun cell_of :: "world \<Rightarrow> val \<Rightarrow> nat option" where
  "cell_of w (VPromise a) = (if a < length (cells w) then Some a else None)"
| "cell_of w _ = None"

definition set_cell :: "nat \<Rightarrow> cell \<Rightarrow> world \<Rightarrow> world" where
  "set_cell a c w = w\<lparr>cells := (cells w)[a := c]\<rparr>"

fun listeners :: "channel \<Rightarrow> cell \<Rightarrow> callback list" where
  "listeners SuccessCh c = successListeners c"
| "listeners FailureCh c = failureListeners c"
| "listeners FinishCh c = finishListeners c"

text \<open>
  The actual parameters a listener gets from the notification loops: the loops over
  \<^verbatim>\<open>_successListeners\<close> and \<^verbatim>\<open>_failureListeners\<close> pass the parameter of the
  notifying call, the loop over \<^verbatim>\<open>_finishListeners\<close> reads the three private
  variables at each iteration.
\<close>

fun listener_args :: "channel \<Rightarrow> val \<Rightarrow> cell \<Rightarrow> val list" where
  "listener_args FinishCh v c = [state_name (p_state c), p_data c, p_error c]"
| "listener_args _ v c = [v]"

section \<open>The interpreter\<close>

text \<open>
  \<open>run n p w\<close> runs program \<open>p\<close> on store \<open>w\<close> with fuel \<open>n\<close>; every call of
  the interpreter costs one unit, and \<open>OutOfFuel\<close> is the answer of a run that needs
  more. A \<^verbatim>\<open>throw\<close> unwinds to the top with the store as it is at that moment:
  the module has no \<^verbatim>\<open>try\<close>. \<open>notify n ch a i v w\<close> is the loop
  \<^verbatim>\<open>for (var i = ...; i < listeners.length; i++) listeners[i](...)\<close> of
  \<^verbatim>\<open>__notifySuccess__\<close> and \<^verbatim>\<open>__notifyFailure__\<close> from index \<open>i\<close> on; it reads
  the registry from the current store at each iteration, as the source does.
\<close>

fun run :: "nat \<Rightarrow> prog \<Rightarrow> world \<Rightarrow> outcome \<times> world"
  and notify :: "nat \<Rightarrow> channel \<Rightarrow> nat \<Rightarrow> nat \<Rightarrow> val \<Rightarrow> world \<Rightarrow> outcome \<times> world"
where
  "run 0 p w = (OutOfFuel, w)"
| "run (Suc n) (Return v) w = (Done v, w)"
| "run (Suc n) (Throw e) w = (Thrown e, w)"
| "run (Suc n) (Bind p k) w =
     (case run n p w of
        (Done v, w') \<Rightarrow> run n (k v) w'
      | r \<Rightarrow> r)"
| "run (Suc n) (NewPromise options) w =
     (Done (VPromise (length (cells w))), w\<lparr>cells := cells w @ [new_cell options]\<rparr>)"
| "run (Suc n) (GetState t) w =
     (case cell_of w t of
        None \<Rightarrow> (Thrown type_error, w)
      | Some a \<Rightarrow> (Done (state_name (p_state (cells w ! a))), w))"
| "run (Suc n) (GetData t) w =
     (case cell_of w t of
        None \<Rightarrow> (Thrown type_error, w)
      | Some a \<Rightarrow>
          (case p_state (cells w ! a) of
             PENDING \<Rightarrow> (Thrown pending_error, w)
           | SUCCEEDED \<Rightarrow> (Done (p_data (cells w ! a)), w)
           | FAILED \<Rightarrow>
               (case p_options (cells w ! a) of
                  None \<Rightarrow> (Thrown type_error, w)
                | Some g \<Rightarrow> run n (g [p_error (cells w ! a)]) w)))"
| "run (Suc n) (Succeed t callback) w =
     (case cell_of w t of
        None \<Rightarrow> (Thrown type_error, w)
      | Some a \<Rightarrow>
          (case p_state (cells w ! a) of
             PENDING \<Rightarrow>
               (Done t, set_cell a ((cells w ! a)
                  \<lparr>successListeners := successListeners (cells w ! a) @ [callback]\<rparr>) w)
           | SUCCEEDED \<Rightarrow>
               (case run n (callback [p_data (cells w ! a)]) w of
                  (Done u, w') \<Rightarrow> (Done t, w')
                | r \<Rightarrow> r)
           | FAILED \<Rightarrow> (Done t, w)))"
| "run (Suc n) (Fail t callback) w =
     (case cell_of w t of
        None \<Rightarrow> (Thrown type_error, w)
      | Some a \<Rightarrow>
          (case p_state (cells w ! a) of
             PENDING \<Rightarrow>
               (Done t, set_cell a ((cells w ! a)
                  \<lparr>failureListeners := failureListeners (cells w ! a) @ [callback]\<rparr>) w)
           | FAILED \<Rightarrow>
               (case run n (callback [p_error (cells w ! a)]) w of
                  (Done u, w') \<Rightarrow> (Done t, w')
                | r \<Rightarrow> r)
           | SUCCEEDED \<Rightarrow> (Done t, w)))"
| "run (Suc n) (Finish t callback) w =
     (case cell_of w t of
        None \<Rightarrow> (Thrown type_error, w)
      | Some a \<Rightarrow>
          (if p_state (cells w ! a) = PENDING then
             (Done t, set_cell a ((cells w ! a)
                \<lparr>finishListeners := finishListeners (cells w ! a) @ [callback]\<rparr>) w)
           else
             (case run n (callback (listener_args FinishCh VUndefined (cells w ! a))) w of
                (Done u, w') \<Rightarrow> (Done t, w')
              | r \<Rightarrow> r)))"
| "run (Suc n) (NotifySuccess t v) w =
     (case cell_of w t of
        None \<Rightarrow> (Thrown type_error, w)
      | Some a \<Rightarrow>
          (if p_state (cells w ! a) \<noteq> PENDING then (Thrown not_pending_error, w)
           else
             (case notify n SuccessCh a 0 v
                     (set_cell a ((cells w ! a)\<lparr>p_state := SUCCEEDED, p_data := v\<rparr>) w) of
                (Done u, w') \<Rightarrow> notify n FinishCh a 0 v w'
              | r \<Rightarrow> r)))"
| "run (Suc n) (NotifyFailure t e) w =
     (case cell_of w t of
        None \<Rightarrow> (Thrown type_error, w)
      | Some a \<Rightarrow>
          (if p_state (cells w ! a) \<noteq> PENDING then (Thrown not_pending_error, w)
           else
             (case notify n FailureCh a 0 e
                     (set_cell a ((cells w ! a)\<lparr>p_state := FAILED, p_error := e\<rparr>) w) of
                (Done u, w') \<Rightarrow> notify n FinishCh a 0 e w'
              | r \<Rightarrow> r)))"
| "run (Suc n) (NewVar v k) w = run n (k (length (vars w))) (w\<lparr>vars := vars w @ [v]\<rparr>)"
| "run (Suc n) (ReadVar x) w = (Done (arg x (vars w)), w)"
| "run (Suc n) (WriteVar x v) w = (Done VUndefined, w\<lparr>vars := (vars w)[x := v]\<rparr>)"
| "run (Suc n) (Log v) w = (Done VUndefined, w\<lparr>logged := logged w @ [v]\<rparr>)"
| "notify 0 ch a i v w = (OutOfFuel, w)"
| "notify (Suc n) ch a i v w =
     (if a < length (cells w) \<and> i < length (listeners ch (cells w ! a)) then
        (case run n ((listeners ch (cells w ! a) ! i) (listener_args ch v (cells w ! a))) w of
           (Done u, w') \<Rightarrow> notify n ch a (Suc i) v w'
         | r \<Rightarrow> r)
      else (Done VUndefined, w))"

section \<open>The constructors and combinators of the module\<close>

text \<open>\<^verbatim>\<open>promise(options)\<close>: a fresh cell in state PENDING.\<close>

definition promise :: "callback option option \<Rightarrow> prog" where
  "promise options = NewPromise options"

text \<open>\<^verbatim>\<open>function unit(data) { var p$ = promise(); p$.__notifySuccess__(data); return p$; }\<close>\<close>

definition unit :: "val \<Rightarrow> prog" where
  "unit data =
     Bind (promise None) (\<lambda>p.
     Bind (NotifySuccess p data) (\<lambda>_.
     Return p))"

text \<open>
  \<^verbatim>\<open>fmap(f)\<close> applied to \<^verbatim>\<open>t$\<close>. The two closures registered on \<^verbatim>\<open>t$\<close> are
  \<open>fmap_success f r\<close> and \<open>forward_failure r\<close>.
\<close>

definition fmap_success :: "callback \<Rightarrow> val \<Rightarrow> callback" where
  "fmap_success f r = (\<lambda>args. Bind (f [arg 0 args]) (\<lambda>v. NotifySuccess r v))"

definition forward_success :: "val \<Rightarrow> callback" where
  "forward_success r = (\<lambda>args. NotifySuccess r (arg 0 args))"

definition forward_failure :: "val \<Rightarrow> callback" where
  "forward_failure r = (\<lambda>args. NotifyFailure r (arg 0 args))"

definition fmap :: "callback \<Rightarrow> val \<Rightarrow> prog" where
  "fmap f t =
     Bind (promise None) (\<lambda>r.
     Bind (Succeed t (fmap_success f r)) (\<lambda>_.
     Bind (Fail t (forward_failure r)) (\<lambda>_.
     Return r)))"

text \<open>
  \<^verbatim>\<open>join(t$$)\<close>. The closure registered for the success of the outer promise
  subscribes the result to the inner promise.
\<close>

definition join_outer :: "val \<Rightarrow> callback" where
  "join_outer t = (\<lambda>args.
     Bind (Succeed (arg 0 args) (forward_success t)) (\<lambda>_.
     Fail (arg 0 args) (forward_failure t)))"

definition join :: "val \<Rightarrow> prog" where
  "join tt =
     Bind (promise None) (\<lambda>t.
     Bind (Succeed tt (join_outer t)) (\<lambda>_.
     Bind (Fail tt (forward_failure t)) (\<lambda>_.
     Return t)))"

text \<open>\<^verbatim>\<open>flatMap(f)\<close> applied to \<^verbatim>\<open>t$\<close>: \<^verbatim>\<open>join(fmap(f)(t$))\<close>.\<close>

definition flatMap :: "callback \<Rightarrow> val \<Rightarrow> prog" where
  "flatMap f t = Bind (fmap f t) (\<lambda>rr. Bind (join rr) (\<lambda>r. Return r))"

text \<open>
  \<^verbatim>\<open>liftA(f)\<close> applied to the argument list \<open>arguments\<close>. The local variables
  \<^verbatim>\<open>finishedCount\<close> and \<^verbatim>\<open>t$s\<close> are shared by the closures registered on the
  arguments, so they live in the store. \<open>map_data\<close> is
  \<^verbatim>\<open>t$s.map(function (t$) { return t$.data(); })\<close>.
\<close>

fun map_data :: "val list \<Rightarrow> prog" where
  "map_data [] = Return (VArray [])"
| "map_data (t # ts) =
     Bind (GetData t) (\<lambda>d.
     Bind (map_data ts) (\<lambda>r.
     (case r of VArray ds \<Rightarrow> Return (VArray (d # ds)) | _ \<Rightarrow> Throw type_error)))"

definition increment :: "val \<Rightarrow> val" where
  "increment v = (case v of VNum k \<Rightarrow> VNum (k + 1) | _ \<Rightarrow> v)"

definition push :: "val \<Rightarrow> val \<Rightarrow> val" where
  "push arr x = (case arr of VArray xs \<Rightarrow> VArray (xs @ [x]) | _ \<Rightarrow> arr)"

definition liftA_finish :: "callback \<Rightarrow> nat \<Rightarrow> val \<Rightarrow> nat \<Rightarrow> nat \<Rightarrow> callback" where
  "liftA_finish f numArgs r finishedCount ts = (\<lambda>args.
     Bind (ReadVar finishedCount) (\<lambda>c.
     Bind (WriteVar finishedCount (increment c)) (\<lambda>_.
     Bind (ReadVar finishedCount) (\<lambda>c'.
     if c' = VNum (int numArgs) then
       Bind (ReadVar ts) (\<lambda>arr.
       Bind (map_data (case arr of VArray xs \<Rightarrow> xs | _ \<Rightarrow> [])) (\<lambda>args.
       Bind (f (case args of VArray xs \<Rightarrow> xs | _ \<Rightarrow> [])) (\<lambda>res.
       NotifySuccess r res)))
     else Return VUndefined))))"

fun liftA_loop :: "callback \<Rightarrow> nat \<Rightarrow> val \<Rightarrow> nat \<Rightarrow> nat \<Rightarrow> val list \<Rightarrow> prog" where
  "liftA_loop f numArgs r finishedCount ts [] = Return VUndefined"
| "liftA_loop f numArgs r finishedCount ts (a # rest) =
     Bind (ReadVar ts) (\<lambda>arr.
     Bind (WriteVar ts (push arr a)) (\<lambda>_.
     Bind (Finish a (liftA_finish f numArgs r finishedCount ts)) (\<lambda>_.
     liftA_loop f numArgs r finishedCount ts rest)))"

definition liftA :: "callback \<Rightarrow> val list \<Rightarrow> prog" where
  "liftA f arguments =
     Bind (promise None) (\<lambda>r.
     NewVar (VNum 0) (\<lambda>finishedCount.
     NewVar (VArray []) (\<lambda>ts.
     Bind (liftA_loop f (length arguments) r finishedCount ts arguments) (\<lambda>_.
     Return r))))"

text \<open>The store before the module is loaded.\<close>

definition empty_world :: world where
  "empty_world = \<lparr> cells = [], vars = [], logged = [] \<rparr>"

section \<open>Runs that finish\<close>

text \<open>
  A run has finished when it did not stop for lack of fuel. \<open>seq\<close> is the way the
  interpreter continues after a call: with the value on \<open>Done\<close>, not at all otherwise.
  \<open>exec p w\<close> is the outcome and the store of the run of \<open>p\<close> on \<open>w\<close> with
  enough fuel, \<open>None\<close> if no amount of fuel is enough; \<open>exec_notify\<close> is the same
  for the notification loop.
\<close>

definition fin :: "outcome \<times> world \<Rightarrow> bool" where
  "fin x = (fst x \<noteq> OutOfFuel)"

abbreviation seq :: "outcome \<times> world \<Rightarrow> (val \<Rightarrow> world \<Rightarrow> outcome \<times> world) \<Rightarrow> outcome \<times> world" where
  "seq x f \<equiv> (case x of (Done v, w') \<Rightarrow> f v w' | (Thrown e, w') \<Rightarrow> (Thrown e, w') | (OutOfFuel, w') \<Rightarrow> (OutOfFuel, w'))"

definition settles :: "(nat \<Rightarrow> outcome \<times> world) \<Rightarrow> bool" where
  "settles c = (\<forall>n. fin (c n) \<longrightarrow> c (Suc n) = c n)"

definition limit :: "(nat \<Rightarrow> outcome \<times> world) \<Rightarrow> (outcome \<times> world) option" where
  "limit c = (if \<exists>n. fin (c n) then Some (c (LEAST n. fin (c n))) else None)"

definition exec :: "prog \<Rightarrow> world \<Rightarrow> (outcome \<times> world) option" where
  "exec p w = limit (\<lambda>n. run n p w)"

definition exec_notify :: "channel \<Rightarrow> nat \<Rightarrow> nat \<Rightarrow> val \<Rightarrow> world \<Rightarrow> (outcome \<times> world) option" where
  "exec_notify ch a i v w = limit (\<lambda>n. notify n ch a i v w)"

definition and_then ::
  "(outcome \<times> world) option \<Rightarrow> (val \<Rightarrow> world \<Rightarrow> (outcome \<times> world) option) \<Rightarrow> (outcome \<times> world) option" where
  "and_then x f = (case x of None \<Rightarrow> None
                   | Some (Done v, w') \<Rightarrow> f v w'
                   | Some (Thrown e, w') \<Rightarrow> Some (Thrown e, w')
                   | Some (OutOfFuel, w') \<Rightarrow> None)"

text \<open>
  The atomic changes of the store that the module makes: allocating a cell, appending a
  listener to a registry of a PENDING cell, resolving a PENDING cell, and the updates
  of local variables and of the log.
\<close>

inductive mutates :: "world \<Rightarrow> world \<Rightarrow> bool" where
  allocate: "mutates w (w\<lparr>cells := cells w @ [new_cell options]\<rparr>)"
| subscribe_success:
    "a < length (cells w) \<Longrightarrow> p_state (cells w ! a) = PENDING \<Longrightarrow>
     mutates w (set_cell a ((cells w ! a)\<lparr>successListeners := successListeners (cells w ! a) @ [cb]\<rparr>) w)"
| subscribe_failure:
    "a < length (cells w) \<Longrightarrow> p_state (cells w ! a) = PENDING \<Longrightarrow>
     mutates w (set_cell a ((cells w ! a)\<lparr>failureListeners := failureListeners (cells w ! a) @ [cb]\<rparr>) w)"
| subscribe_finish:
    "a < length (cells w) \<Longrightarrow> p_state (cells w ! a) = PENDING \<Longrightarrow>
     mutates w (set_cell a ((cells w ! a)\<lparr>finishListeners := finishListeners (cells w ! a) @ [cb]\<rparr>) w)"
| resolve_success:
    "a < length (cells w) \<Longrightarrow> p_state (cells w ! a) = PENDING \<Longrightarrow>
     mutates w (set_cell a ((cells w ! a)\<lparr>p_state := SUCCEEDED, p_data := v\<rparr>) w)"
| resolve_failure:
    "a < length (cells w) \<Longrightarrow> p_state (cells w ! a) = PENDING \<Longrightarrow>
     mutates w (set_cell a ((cells w ! a)\<lparr>p_state := FAILED, p_error := e\<rparr>) w)"
| declare_var: "mutates w (w\<lparr>vars := vars w @ [v]\<rparr>)"
| assign_var: "mutates w (w\<lparr>vars := (vars w)[x := v]\<rparr>)"
| write_log: "mutates w (w\<lparr>logged := logged w @ [v]\<rparr>)"

section \<open>Stores used as examples\<close>

text \<open>A store with a PENDING cell and a cell SUCCEEDED with 1.\<close>

definition two_cells :: world where
  "two_cells =
     \<lparr> cells = [new_cell None, (new_cell None)\<lparr>p_state := SUCCEEDED, p_data := VNum 1\<rparr>],
       vars = [], logged = [] \<rparr>"

text \<open>A store whose only cell is FAILED with the error "boom".\<close>

definition failed_cell :: world where
  "failed_cell =
     \<lparr> cells = [(new_cell None)\<lparr>p_state := FAILED, p_error := VStr ''boom''\<rparr>],
       vars = [], logged = [] \<rparr>"

text \<open>The three listener registries of a cell.\<close>

definition registries :: "cell \<Rightarrow> callback list \<times> callback list \<times> callback list" where
  "registries c = (successListeners c, failureListeners c, finishListeners c)"

text \<open>
  A fresh cell gets one listener on each channel and is then resolved with 1;
  \<open>resolved_example\<close> is the store after that, starting from the empty store.
\<close>

definition subscribe_then_resolve :: prog where
  "subscribe_then_resolve =
     Bind (promise None) (\<lambda>p.
     Bind (Succeed p (\<lambda>args. Log (arg 0 args))) (\<lambda>_.
     Bind (Fail p (\<lambda>args. Log (arg 0 args))) (\<lambda>_.
     Bind (Finish p (\<lambda>args. Log (arg 0 args))) (\<lambda>_.
     NotifySuccess p (VNum 1)))))"

definition resolved_example :: world where
  "resolved_example = snd (run 20 subscribe_then_resolve empty_world)"

text \<open>
  Calling the callbacks of a list one after the other with the same arguments, in the
  order of the list: what the spec says a notification does with a registry.
\<close>

fun call_all :: "callback list \<Rightarrow> val list \<Rightarrow> prog" where
  "call_all [] args = Return VUndefined"
| "call_all (cb # cbs) args = Bind (cb args) (\<lambda>_. call_all cbs args)"

text \<open>A user callback that writes its tag and its arguments to the log.\<close>

definition log_call :: "string \<Rightarrow> callback" where
  "log_call tag = (\<lambda>args. Log (VArray (VStr tag # args)))"

text \<open>A store whose only cell is PENDING, with logging listeners on every channel.\<close>

definition listeners_example :: world where
  "listeners_example =
     \<lparr> cells = [(new_cell None)
          \<lparr> successListeners := [log_call ''s1'', log_call ''s2''],
            failureListeners := [log_call ''x1''],
            finishListeners := [log_call ''f1'', log_call ''f2''] \<rparr>],
       vars = [], logged = [] \<rparr>"

text \<open>The store \<open>w\<close> with cell \<open>a\<close> resolved: state and result set, nothing else changed.\<close>

definition resolved_success :: "nat \<Rightarrow> val \<Rightarrow> world \<Rightarrow> world" where
  "resolved_success a v w = set_cell a ((cells w ! a)\<lparr>p_state := SUCCEEDED, p_data := v\<rparr>) w"

definition resolved_failure :: "nat \<Rightarrow> val \<Rightarrow> world \<Rightarrow> world" where
  "resolved_failure a e w = set_cell a ((cells w ! a)\<lparr>p_state := FAILED, p_error := e\<rparr>) w"

text \<open>
  The store after \<^verbatim>\<open>fmap(f)\<close> is applied to the PENDING cell \<open>b\<close>: the result cell is
  allocated and the two closures are appended to the registries of \<open>b\<close>.
\<close>

definition fmap_wired :: "callback \<Rightarrow> nat \<Rightarrow> world \<Rightarrow> world" where
  "fmap_wired f b w =
     set_cell b ((cells w ! b)
       \<lparr>successListeners := successListeners (cells w ! b) @
            [fmap_success f (VPromise (length (cells w)))],
         failureListeners := failureListeners (cells w ! b) @
            [forward_failure (VPromise (length (cells w)))]\<rparr>)
       (w\<lparr>cells := cells w @ [new_cell None]\<rparr>)"

text \<open>What an example shows of a finished run: the outcome, the state, data and error of every cell, and the log.\<close>

definition summary :: "(outcome \<times> world) option \<Rightarrow> (outcome \<times> (pstate \<times> val \<times> val) list \<times> val list) option" where
  "summary x = map_option (\<lambda>(r, w). (r, map (\<lambda>c. (p_state c, p_data c, p_error c)) (cells w), logged w)) x"

text \<open>
  \<^verbatim>\<open>function (x) { return x * 2; }\<close> on the numbers of the model, and the same function
  writing each of its calls to the log.
\<close>

definition times_two :: callback where
  "times_two = (\<lambda>args. case arg 0 args of VNum k \<Rightarrow> Return (VNum (k * 2)) | _ \<Rightarrow> Return VUndefined)"

definition logged_times_two :: callback where
  "logged_times_two = (\<lambda>args. Bind (Log (VArray (VStr ''f'' # args))) (\<lambda>_. times_two args))"

text \<open>
  The store \<open>w\<close> after the inner closure of \<^verbatim>\<open>join\<close> has subscribed the cell \<open>a\<close> to
  the PENDING cell \<open>c\<close>: the two forwarding closures are appended to the registries of \<open>c\<close>.
\<close>

definition forwarded :: "nat \<Rightarrow> nat \<Rightarrow> world \<Rightarrow> world" where
  "forwarded a c w =
     set_cell c ((cells w ! c)
       \<lparr>successListeners := successListeners (cells w ! c) @ [forward_success (VPromise a)],
         failureListeners := failureListeners (cells w ! c) @ [forward_failure (VPromise a)]\<rparr>) w"

text \<open>
  The store after \<^verbatim>\<open>join\<close> is applied to the PENDING cell \<open>b\<close>: the result cell is
  allocated and the two closures are appended to the registries of \<open>b\<close>.
\<close>

definition join_wired :: "nat \<Rightarrow> world \<Rightarrow> world" where
  "join_wired b w =
     set_cell b ((cells w ! b)
       \<lparr>successListeners := successListeners (cells w ! b) @
            [join_outer (VPromise (length (cells w)))],
         failureListeners := failureListeners (cells w ! b) @
            [forward_failure (VPromise (length (cells w)))]\<rparr>)
       (w\<lparr>cells := cells w @ [new_cell None]\<rparr>)"

text \<open>
  A cell as \<open>promise()\<close> makes it, then resolved; a store with inner promises in each
  state (cells 0 to 2), outer promises holding them (cells 3 to 5), a failed and a
  PENDING outer promise; and the state, data and error of one cell after a run.
\<close>

definition settled :: "pstate \<Rightarrow> val \<Rightarrow> cell" where
  "settled s v =
     (if s = FAILED then (new_cell None)\<lparr>p_state := s, p_error := v\<rparr>
      else (new_cell None)\<lparr>p_state := s, p_data := v\<rparr>)"

definition nested_cells :: world where
  "nested_cells =
     \<lparr> cells = [new_cell None, settled SUCCEEDED (VNum 1), settled FAILED (VStr ''boom''),
                settled SUCCEEDED (VPromise 1), settled SUCCEEDED (VPromise 2),
                settled SUCCEEDED (VPromise 0), settled FAILED (VStr ''outer''), new_cell None],
       vars = [], logged = [] \<rparr>"

definition observe :: "nat \<Rightarrow> (outcome \<times> world) option \<Rightarrow> (pstate \<times> val \<times> val) option" where
  "observe a x = map_option (\<lambda>(r, w). (p_state (cells w ! a), p_data (cells w ! a), p_error (cells w ! a))) x"

subsection \<open>The fan-in of \<^verbatim>\<open>liftA\<close>\<close>

text \<open>A callback that computes its result from its arguments and touches nothing.\<close>

definition pure_call :: "(val list \<Rightarrow> val) \<Rightarrow> callback" where
  "pure_call g = (\<lambda>args. Return (g args))"

text \<open>
  What \<^verbatim>\<open>data()\<close> returns on the terminal cell \<open>b\<close> of the store \<open>W\<close> when the
  \<^verbatim>\<open>__errorToData__\<close> of \<open>b\<close> computes \<open>fb b\<close>: the data of a SUCCEEDED cell, the fallback
  of the error of a FAILED one. On a PENDING cell \<^verbatim>\<open>data()\<close> throws; the value given here for
  that case is never used.
\<close>

definition data_of :: "(nat \<Rightarrow> val list \<Rightarrow> val) \<Rightarrow> world \<Rightarrow> nat \<Rightarrow> val" where
  "data_of fb W b =
     (case p_state (cells W ! b) of
        PENDING \<Rightarrow> VUndefined
      | SUCCEEDED \<Rightarrow> p_data (cells W ! b)
      | FAILED \<Rightarrow> fb b [p_error (cells W ! b)])"

text \<open>The cell \<open>b\<close> has left PENDING.\<close>

definition settled_in :: "world \<Rightarrow> nat \<Rightarrow> bool" where
  "settled_in W b = (p_state (cells W ! b) \<noteq> PENDING)"

text \<open>
  The state of a \<^verbatim>\<open>liftedF\<close> call between two steps. \<open>bs\<close> are the input cells, \<open>a\<close> is
  \<^verbatim>\<open>r$\<close>, \<open>x\<close> and \<open>Suc x\<close> hold \<^verbatim>\<open>finishedCount\<close> and \<^verbatim>\<open>t$s\<close>, and \<open>pre\<close> are the inputs the
  loop has gone through: the counter is the number of those that are terminal, every
  PENDING one carries the closure as its only listener, and \<^verbatim>\<open>r$\<close> is untouched until
  the loop is over and every input is terminal, and SUCCEEDED with \<open>g\<close> of the data of the
  inputs from then on.
\<close>

definition lift_inv ::
  "(val list \<Rightarrow> val) \<Rightarrow> (nat \<Rightarrow> val list \<Rightarrow> val) \<Rightarrow> nat list \<Rightarrow> nat \<Rightarrow> nat \<Rightarrow> nat list \<Rightarrow> world \<Rightarrow> bool" where
  "lift_inv g fb bs a x pre W =
     (a < length (cells W) \<and> Suc x < length (vars W) \<and>
      vars W ! x = VNum (int (length (filter (settled_in W) pre))) \<and>
      vars W ! Suc x = VArray (map VPromise pre) \<and>
      (\<forall>b \<in> set bs. b < length (cells W) \<and> b \<noteq> a \<and>
         p_options (cells W ! b) = Some (pure_call (fb b)) \<and>
         (p_state (cells W ! b) = PENDING \<longrightarrow>
            successListeners (cells W ! b) = [] \<and> failureListeners (cells W ! b) = [] \<and>
            finishListeners (cells W ! b) =
              (if b \<in> set pre
               then [liftA_finish (pure_call g) (length bs) (VPromise a) x (Suc x)] else []))) \<and>
      cells W ! a =
        (if pre = bs \<and> (\<forall>b \<in> set bs. settled_in W b)
         then (new_cell None)\<lparr>p_state := SUCCEEDED, p_data := g (map (data_of fb W) bs)\<rparr>
         else new_cell None))"

text \<open>Two cells with the same state, data and error.\<close>

definition same_result :: "cell \<Rightarrow> cell \<Rightarrow> bool" where
  "same_result c c' = (p_state c = p_state c' \<and> p_data c = p_data c' \<and> p_error c = p_error c')"

text \<open>
  What happens to cells after a call: \<open>Resolve c v\<close> is \<^verbatim>\<open>c.__notifySuccess__(v)\<close>,
  \<open>Reject c e\<close> is \<^verbatim>\<open>c.__notifyFailure__(e)\<close>. \<open>fire\<close> performs the events in order,
  \<open>later evs p\<close> runs \<open>p\<close>, then the events, and returns what \<open>p\<close> returned, and
  \<open>settle evs b c\<close> is the cell \<open>c\<close> at address \<open>b\<close> with the state, data and error that the
  events give it.
\<close>

datatype event = Resolve nat val | Reject nat val

fun target :: "event \<Rightarrow> nat" where
  "target (Resolve c v) = c"
| "target (Reject c e) = c"

fun fire :: "event list \<Rightarrow> prog" where
  "fire [] = Return VUndefined"
| "fire (Resolve c v # evs) = Bind (NotifySuccess (VPromise c) v) (\<lambda>_. fire evs)"
| "fire (Reject c e # evs) = Bind (NotifyFailure (VPromise c) e) (\<lambda>_. fire evs)"

definition later :: "event list \<Rightarrow> prog \<Rightarrow> prog" where
  "later evs p = Bind p (\<lambda>r. Bind (fire evs) (\<lambda>_. Return r))"

fun settle :: "event list \<Rightarrow> nat \<Rightarrow> cell \<Rightarrow> cell" where
  "settle [] b c = c"
| "settle (Resolve t v # evs) b c =
     settle evs b (if t = b then c\<lparr>p_state := SUCCEEDED, p_data := v\<rparr> else c)"
| "settle (Reject t e # evs) b c =
     settle evs b (if t = b then c\<lparr>p_state := FAILED, p_error := e\<rparr> else c)"

text \<open>A store with a PENDING cell and a cell SUCCEEDED with "x".\<close>

definition masking_cells :: world where
  "masking_cells =
     \<lparr> cells = [new_cell None, (new_cell None)\<lparr>p_state := SUCCEEDED, p_data := VStr ''x''\<rparr>],
       vars = [], logged = [] \<rparr>"

section \<open>What a run reaches\<close>

text \<open>
  The value a cell holds once it is resolved.
\<close>

definition succeeded_with :: "nat \<Rightarrow> val \<Rightarrow> world \<Rightarrow> bool" where
  "succeeded_with r v W = (r < length (cells W) \<and> p_state (cells W ! r) = SUCCEEDED \<and> p_data (cells W ! r) = v)"

definition failed_with :: "nat \<Rightarrow> val \<Rightarrow> world \<Rightarrow> bool" where
  "failed_with r e W = (r < length (cells W) \<and> p_state (cells W ! r) = FAILED \<and> p_error (cells W ! r) = e)"

text \<open>
  \<open>at_last p w Q\<close>: from some amount of fuel on, the store the run of \<open>p\<close> on \<open>w\<close> stops
  in satisfies \<open>Q\<close>, whether the run returns or throws. \<open>at_last_notify\<close> is the same for
  the rest of a notification loop.
\<close>

definition at_last :: "prog \<Rightarrow> world \<Rightarrow> (world \<Rightarrow> bool) \<Rightarrow> bool" where
  "at_last p w Q = (\<exists>k. \<forall>n \<ge> k. Q (snd (run n p w)))"

definition at_last_notify :: "channel \<Rightarrow> nat \<Rightarrow> nat \<Rightarrow> val \<Rightarrow> world \<Rightarrow> (world \<Rightarrow> bool) \<Rightarrow> bool" where
  "at_last_notify ch a i v w Q = (\<exists>k. \<forall>n \<ge> k. Q (snd (notify n ch a i v w)))"

text \<open>A property of stores that no step of any program undoes.\<close>

definition kept :: "(world \<Rightarrow> bool) \<Rightarrow> bool" where
  "kept Q = (\<forall>w w'. mutates\<^sup>*\<^sup>* w w' \<longrightarrow> Q w \<longrightarrow> Q w')"

text \<open>
  A listener that throws, and a client that registers it on a fresh cell before it calls
  \<^verbatim>\<open>fmap\<close> and then resolves the cell with 4.
\<close>

definition thrower :: callback where
  "thrower = (\<lambda>args. Throw (VStr ''oops''))"

definition fmap_after_thrower :: prog where
  "fmap_after_thrower =
     Bind (promise None) (\<lambda>p.
     Bind (Succeed p thrower) (\<lambda>_.
     Bind (fmap times_two p) (\<lambda>r.
     NotifySuccess p (VNum 4))))"

text \<open>
  The store after \<^verbatim>\<open>fmap\<close> of \<open>logged_times_two\<close> on the PENDING cell 0 of
  \<open>two_cells\<close>, and a consumer registered on the result.
\<close>

definition fmap_then_consumer :: world where
  "fmap_then_consumer =
     snd (run 5 (Succeed (VPromise 2) (log_call ''c'')) (fmap_wired logged_times_two 0 two_cells))"

text \<open>
  \<open>subscribed a c W\<close>: the two closures with which \<^verbatim>\<open>join\<close> forwards the inner cell
  \<open>c\<close> to the result \<open>a\<close> are registered on \<open>c\<close>.
\<close>

definition subscribed :: "nat \<Rightarrow> nat \<Rightarrow> world \<Rightarrow> bool" where
  "subscribed a c W =
     (c < length (cells W) \<and>
      (\<exists>Ls Ls'. successListeners (cells W ! c) = Ls @ forward_success (VPromise a) # Ls') \<and>
      (\<exists>Lf Lf'. failureListeners (cells W ! c) = Lf @ forward_failure (VPromise a) # Lf'))"

text \<open>
  The same client for \<^verbatim>\<open>join\<close>: the throwing listener is registered on the outer
  cell, which is then resolved with a cell SUCCEEDED with "inner".
\<close>

definition join_after_thrower :: prog where
  "join_after_thrower =
     Bind (promise None) (\<lambda>pp.
     Bind (Succeed pp thrower) (\<lambda>_.
     Bind (join pp) (\<lambda>r.
     Bind (unit (VStr ''inner'')) (\<lambda>q.
     NotifySuccess pp q))))"

text \<open>
  The store after \<^verbatim>\<open>join\<close> on the PENDING cell 7 of \<open>nested_cells\<close>, and a consumer
  registered on the result.
\<close>

definition join_then_consumer :: world where
  "join_then_consumer =
     snd (run 5 (Succeed (VPromise 8) (log_call ''c'')) (join_wired 7 nested_cells))"

text \<open>
  \<open>avoids r n p w\<close>: the run of \<open>p\<close> on \<open>w\<close> with fuel \<open>n\<close> never enters
  \<^verbatim>\<open>__notifySuccess__\<close> or \<^verbatim>\<open>__notifyFailure__\<close> of cell \<open>r\<close> while \<open>r\<close> is PENDING.
  It follows the interpreter case by case, through every callback the run calls.
\<close>

fun avoids :: "nat \<Rightarrow> nat \<Rightarrow> prog \<Rightarrow> world \<Rightarrow> bool"
  and avoids_loop :: "nat \<Rightarrow> nat \<Rightarrow> channel \<Rightarrow> nat \<Rightarrow> nat \<Rightarrow> val \<Rightarrow> world \<Rightarrow> bool"
where
  "avoids r 0 p w = True"
| "avoids r (Suc n) (Return v) w = True"
| "avoids r (Suc n) (Throw e) w = True"
| "avoids r (Suc n) (Bind p k) w =
     (avoids r n p w \<and>
      (case run n p w of
         (Done v, w') \<Rightarrow> avoids r n (k v) w'
       | _ \<Rightarrow> True))"
| "avoids r (Suc n) (NewPromise options) w = True"
| "avoids r (Suc n) (GetState t) w = True"
| "avoids r (Suc n) (GetData t) w =
     (case cell_of w t of
        None \<Rightarrow> True
      | Some a \<Rightarrow>
          (case p_state (cells w ! a) of
             PENDING \<Rightarrow> True
           | SUCCEEDED \<Rightarrow> True
           | FAILED \<Rightarrow>
               (case p_options (cells w ! a) of
                  None \<Rightarrow> True
                | Some g \<Rightarrow> avoids r n (g [p_error (cells w ! a)]) w)))"
| "avoids r (Suc n) (Succeed t callback) w =
     (case cell_of w t of
        None \<Rightarrow> True
      | Some a \<Rightarrow>
          (case p_state (cells w ! a) of
             PENDING \<Rightarrow> True
           | SUCCEEDED \<Rightarrow> avoids r n (callback [p_data (cells w ! a)]) w
           | FAILED \<Rightarrow> True))"
| "avoids r (Suc n) (Fail t callback) w =
     (case cell_of w t of
        None \<Rightarrow> True
      | Some a \<Rightarrow>
          (case p_state (cells w ! a) of
             PENDING \<Rightarrow> True
           | FAILED \<Rightarrow> avoids r n (callback [p_error (cells w ! a)]) w
           | SUCCEEDED \<Rightarrow> True))"
| "avoids r (Suc n) (Finish t callback) w =
     (case cell_of w t of
        None \<Rightarrow> True
      | Some a \<Rightarrow>
          (if p_state (cells w ! a) = PENDING then True
           else avoids r n (callback (listener_args FinishCh VUndefined (cells w ! a))) w))"
| "avoids r (Suc n) (NotifySuccess t v) w =
     (case cell_of w t of
        None \<Rightarrow> True
      | Some a \<Rightarrow>
          (if p_state (cells w ! a) \<noteq> PENDING then True
           else a \<noteq> r \<and>
             avoids_loop r n SuccessCh a 0 v
               (set_cell a ((cells w ! a)\<lparr>p_state := SUCCEEDED, p_data := v\<rparr>) w) \<and>
             (case notify n SuccessCh a 0 v
                     (set_cell a ((cells w ! a)\<lparr>p_state := SUCCEEDED, p_data := v\<rparr>) w) of
                (Done u, w') \<Rightarrow> avoids_loop r n FinishCh a 0 v w'
              | _ \<Rightarrow> True)))"
| "avoids r (Suc n) (NotifyFailure t e) w =
     (case cell_of w t of
        None \<Rightarrow> True
      | Some a \<Rightarrow>
          (if p_state (cells w ! a) \<noteq> PENDING then True
           else a \<noteq> r \<and>
             avoids_loop r n FailureCh a 0 e
               (set_cell a ((cells w ! a)\<lparr>p_state := FAILED, p_error := e\<rparr>) w) \<and>
             (case notify n FailureCh a 0 e
                     (set_cell a ((cells w ! a)\<lparr>p_state := FAILED, p_error := e\<rparr>) w) of
                (Done u, w') \<Rightarrow> avoids_loop r n FinishCh a 0 e w'
              | _ \<Rightarrow> True)))"
| "avoids r (Suc n) (NewVar v k) w = avoids r n (k (length (vars w))) (w\<lparr>vars := vars w @ [v]\<rparr>)"
| "avoids r (Suc n) (ReadVar x) w = True"
| "avoids r (Suc n) (WriteVar x v) w = True"
| "avoids r (Suc n) (Log v) w = True"
| "avoids_loop r 0 ch a i v w = True"
| "avoids_loop r (Suc n) ch a i v w =
     (if a < length (cells w) \<and> i < length (listeners ch (cells w ! a)) then
        avoids r n ((listeners ch (cells w ! a) ! i) (listener_args ch v (cells w ! a))) w \<and>
        (case run n ((listeners ch (cells w ! a) ! i) (listener_args ch v (cells w ! a))) w of
           (Done u, w') \<Rightarrow> avoids_loop r n ch a (Suc i) v w'
         | _ \<Rightarrow> True)
      else True)"

definition still_pending :: "nat \<Rightarrow> world \<Rightarrow> bool" where
  "still_pending r w = (r < length (cells w) \<and> p_state (cells w ! r) = PENDING)"
text \<open>
  The store after \<^verbatim>\<open>liftA(f)()\<close> on \<open>two_cells\<close>, and a client that registers a
  listener on the result, maps over it and reads its state.
\<close>

definition empty_lift :: world where
  "empty_lift = two_cells\<lparr>cells := cells two_cells @ [new_cell None], vars := [VNum 0, VArray []]\<rparr>"

definition use_empty_lift :: prog where
  "use_empty_lift =
     Bind (Succeed (VPromise 2) (log_call ''c'')) (\<lambda>_.
     Bind (fmap times_two (VPromise 2)) (\<lambda>_.
     GetState (VPromise 2)))"

section \<open>More fuel does not change a finished run\<close>

lemma fin_simps [simp]: "fin (Done v, w)" "fin (Thrown e, w)" "\<not> fin (OutOfFuel, w)"
  by (simp_all add: fin_def)

lemma seq_mono:
  assumes "fin (seq x f)"
    and "fin x \<Longrightarrow> x' = x"
    and "\<And>v w'. x = (Done v, w') \<Longrightarrow> fin (f v w') \<Longrightarrow> f' v w' = f v w'"
  shows "seq x' f' = seq x f"
proof (cases x)
  case (Pair r w1)
  show ?thesis
  proof (cases r)
    case (Done v)
    with Pair assms show ?thesis by simp
  next
    case (Thrown e)
    with Pair assms show ?thesis by simp
  next
    case OutOfFuel
    with Pair assms(1) show ?thesis by simp
  qed
qed

lemma run_notify_mono_Suc:
  "(\<forall>p w. fin (run n p w) \<longrightarrow> run (Suc n) p w = run n p w) \<and>
   (\<forall>ch a i v w. fin (notify n ch a i v w) \<longrightarrow> notify (Suc n) ch a i v w = notify n ch a i v w)"
proof (induction n)
  case 0
  show ?case by simp
next
  case (Suc n)
  have R: "\<And>p w. fin (run n p w) \<Longrightarrow> run (Suc n) p w = run n p w"
    using Suc by blast
  have N: "\<And>ch a i v w. fin (notify n ch a i v w) \<Longrightarrow> notify (Suc n) ch a i v w = notify n ch a i v w"
    using Suc by blast
  have 1: "run (Suc (Suc n)) p w = run (Suc n) p w" if a: "fin (run (Suc n) p w)" for p w
  proof (cases p)
    case (Bind q k)
    show ?thesis using a unfolding Bind run.simps
      by (rule seq_mono) (auto intro: R simp del: run.simps notify.simps)
  next
    case (GetData t)
    show ?thesis using a GetData R by (simp split: option.splits pstate.splits)
  next
    case (Succeed t cb)
    show ?thesis
    proof (cases "cell_of w t")
      case None then show ?thesis using Succeed by simp
    next
      case (Some c)
      show ?thesis
      proof (cases "p_state (cells w ! c)")
        case SUCCEEDED
        show ?thesis using a unfolding Succeed run.simps Some option.case SUCCEEDED pstate.case
          by (rule seq_mono) (auto intro: R simp del: run.simps notify.simps)
      qed (simp_all add: Succeed Some)
    qed
  next
    case (Fail t cb)
    show ?thesis
    proof (cases "cell_of w t")
      case None then show ?thesis using Fail by simp
    next
      case (Some c)
      show ?thesis
      proof (cases "p_state (cells w ! c)")
        case FAILED
        show ?thesis using a unfolding Fail run.simps Some option.case FAILED pstate.case
          by (rule seq_mono) (auto intro: R simp del: run.simps notify.simps)
      qed (simp_all add: Fail Some)
    qed
  next
    case (Finish t cb)
    show ?thesis
    proof (cases "cell_of w t")
      case None then show ?thesis using Finish by simp
    next
      case (Some c)
      show ?thesis
      proof (cases "p_state (cells w ! c) = PENDING")
        case False
        show ?thesis using a unfolding Finish run.simps Some option.case if_not_P[OF False]
          by (rule seq_mono) (auto intro: R simp del: run.simps notify.simps)
      qed (simp_all add: Finish Some)
    qed
  next
    case (NotifySuccess t v)
    show ?thesis
    proof (cases "cell_of w t")
      case None then show ?thesis using NotifySuccess by simp
    next
      case (Some c)
      show ?thesis
      proof (cases "p_state (cells w ! c) \<noteq> PENDING")
        case False
        show ?thesis using a unfolding NotifySuccess run.simps Some option.case if_not_P[OF False]
          by (rule seq_mono) (auto intro: N simp del: run.simps notify.simps)
      qed (simp_all add: NotifySuccess Some)
    qed
  next
    case (NotifyFailure t v)
    show ?thesis
    proof (cases "cell_of w t")
      case None then show ?thesis using NotifyFailure by simp
    next
      case (Some c)
      show ?thesis
      proof (cases "p_state (cells w ! c) \<noteq> PENDING")
        case False
        show ?thesis using a unfolding NotifyFailure run.simps Some option.case if_not_P[OF False]
          by (rule seq_mono) (auto intro: N simp del: run.simps notify.simps)
      qed (simp_all add: NotifyFailure Some)
    qed
  next
    case (NewVar v k)
    then show ?thesis using a R by simp
  qed (simp_all)
  have 2: "notify (Suc (Suc n)) ch a i v w = notify (Suc n) ch a i v w"
    if a: "fin (notify (Suc n) ch a i v w)" for ch a i v w
  proof (cases "a < length (cells w) \<and> i < length (listeners ch (cells w ! a))")
    case True
    let ?x = "run n ((listeners ch (cells w ! a) ! i) (listener_args ch v (cells w ! a))) w"
    let ?x' = "run (Suc n) ((listeners ch (cells w ! a) ! i) (listener_args ch v (cells w ! a))) w"
    have L: "notify (Suc (Suc n)) ch a i v w = seq ?x' (\<lambda>u. notify (Suc n) ch a (Suc i) v)"
      by (subst notify.simps) (simp only: True simp_thms if_True)
    have M: "notify (Suc n) ch a i v w = seq ?x (\<lambda>u. notify n ch a (Suc i) v)"
      by (subst notify.simps) (simp only: True simp_thms if_True)
    have "seq ?x' (\<lambda>u. notify (Suc n) ch a (Suc i) v) = seq ?x (\<lambda>u. notify n ch a (Suc i) v)"
      using a[unfolded M] by (rule seq_mono) (auto intro: R N simp del: run.simps notify.simps)
    with L M show ?thesis by simp
  next
    case False
    have "notify (Suc (Suc n)) ch a i v w = (Done VUndefined, w)"
      by (subst notify.simps) (simp only: False if_False)
    moreover have "notify (Suc n) ch a i v w = (Done VUndefined, w)"
      by (subst notify.simps) (simp only: False if_False)
    ultimately show ?thesis by simp
  qed
  show ?case using 1 2 by blast
qed

lemma settles_le: "settles c \<Longrightarrow> fin (c n) \<Longrightarrow> n \<le> m \<Longrightarrow> c m = c n"
proof (induction m)
  case 0
  then show ?case by simp
next
  case (Suc m)
  show ?case
  proof (cases "n = Suc m")
    case True
    then show ?thesis by simp
  next
    case False
    with Suc.prems have le: "n \<le> m" by simp
    from Suc.IH[OF Suc.prems(1,2) le] have eq: "c m = c n" .
    with Suc.prems(2) have "fin (c m)" by simp
    with Suc.prems(1) have "c (Suc m) = c m" by (simp add: settles_def)
    with eq show ?thesis by simp
  qed
qed

lemma limit_eq: "settles c \<Longrightarrow> fin (c n) \<Longrightarrow> limit c = Some (c n)"
proof -
  assume s: "settles c" and f: "fin (c n)"
  have l: "fin (c (LEAST n. fin (c n)))" using f by (rule LeastI)
  have "(LEAST n. fin (c n)) \<le> n" using f by (rule Least_le)
  from settles_le[OF s l this] f show ?thesis by (auto simp: limit_def)
qed

lemma limit_None: "limit c = None \<longleftrightarrow> (\<forall>n. \<not> fin (c n))"
  by (simp add: limit_def)

lemma limit_Some: "limit c = Some x \<Longrightarrow> \<exists>n. c n = x \<and> fin x"
  by (auto simp: limit_def split: if_splits intro: LeastI)

lemma limit_seq:
  assumes x: "settles x" and f: "\<And>v w'. settles (\<lambda>n. f n v w')"
    and c0: "\<not> fin (c 0)" and c: "\<And>n. c (Suc n) = seq (x n) (f n)"
  shows "limit c = (case limit x of None \<Rightarrow> None
                   | Some (Done v, w') \<Rightarrow> limit (\<lambda>n. f n v w')
                   | Some (Thrown e, w') \<Rightarrow> Some (Thrown e, w')
                   | Some (OutOfFuel, w') \<Rightarrow> None)"
proof (cases "limit x")
  case None
  then have nx: "\<And>n. \<not> fin (x n)" by (simp add: limit_None)
  have "\<not> fin (c n)" for n
  proof (cases n)
    case 0 with c0 show ?thesis by simp
  next
    case (Suc m)
    with nx[of m] c[of m] show ?thesis by (cases "x m") (auto simp: fin_def split: outcome.splits)
  qed
  then have "limit c = None" by (simp add: limit_None)
  with None show ?thesis by simp
next
  case (Some y)
  then obtain n where n: "x n = y" "fin y" using limit_Some by blast
  obtain r w1 where y: "y = (r, w1)" by (cases y)
  have xm: "x m = (r, w1)" if "n \<le> m" for m
    using settles_le[OF x _ that] n y by simp
  have xfin: "x m = (r, w1)" if "fin (x m)" for m
    using limit_eq[OF x that] Some y by simp
  show ?thesis
  proof (cases r)
    case (Done v)
    show ?thesis
    proof (cases "limit (\<lambda>n. f n v w1)")
      case None
      then have nf: "\<And>k. \<not> fin (f k v w1)" by (simp add: limit_None)
      have "\<not> fin (c k)" for k
      proof (cases k)
        case 0 with c0 show ?thesis by simp
      next
        case (Suc m)
        show ?thesis
        proof (cases "fin (x m)")
          case True
          from xfin[OF this] Done nf[of m] c[of m] Suc show ?thesis by simp
        next
          case False
          with c[of m] Suc show ?thesis by (cases "x m") (auto simp: fin_def split: outcome.splits)
        qed
      qed
      then have "limit c = None" by (simp add: limit_None)
      with None Some y Done show ?thesis by simp
    next
      case (Some z)
      then obtain k where k: "f k v w1 = z" "fin z" using limit_Some by blast
      let ?m = "max n k"
      have "f ?m v w1 = z" using settles_le[OF f, of k v w1 ?m] k by simp
      moreover have "x ?m = (Done v, w1)" using xm[of ?m] Done by simp
      ultimately have cm: "c (Suc ?m) = z" using c[of ?m] by simp
      have sc: "settles c" unfolding settles_def
      proof (intro allI impI)
        fix j assume fj: "fin (c j)"
        show "c (Suc j) = c j"
        proof (cases j)
          case 0 with fj c0 show ?thesis by simp
        next
          case (Suc i)
          show ?thesis
          proof (cases "fin (x i)")
            case True
            then have xi: "x i = (r, w1)" by (rule xfin)
            have "x (Suc i) = x i" using x True by (simp add: settles_def)
            moreover have "fin (f i v w1)" using fj Suc c[of i] xi Done by simp
            then have "f (Suc i) v w1 = f i v w1" using f[of v w1] by (simp add: settles_def)
            ultimately show ?thesis using c[of i] c[of "Suc i"] Suc xi Done by simp
          next
            case False
            with fj c[of i] Suc show ?thesis by (cases "x i") (auto simp: fin_def split: outcome.splits)
          qed
        qed
      qed
      have "limit c = Some z" using limit_eq[OF sc, of "Suc ?m"] cm k by simp
      with Some \<open>limit x = Some y\<close> y Done show ?thesis by simp
    qed
  next
    case (Thrown e)
    have sc: "settles c" unfolding settles_def
    proof (intro allI impI)
      fix j assume fj: "fin (c j)"
      show "c (Suc j) = c j"
      proof (cases j)
        case 0 with fj c0 show ?thesis by simp
      next
        case (Suc i)
        show ?thesis
        proof (cases "fin (x i)")
          case True
          then have xi: "x i = (r, w1)" by (rule xfin)
          have "x (Suc i) = x i" using x True by (simp add: settles_def)
          then show ?thesis using c[of i] c[of "Suc i"] Suc xi Thrown by simp
        next
          case False
          with fj c[of i] Suc show ?thesis by (cases "x i") (auto simp: fin_def split: outcome.splits)
        qed
      qed
    qed
    have "c (Suc n) = (Thrown e, w1)" using c[of n] n y Thrown by simp
    then have "limit c = Some (Thrown e, w1)" using limit_eq[OF sc, of "Suc n"] by simp
    with Some y Thrown show ?thesis by simp
  next
    case OutOfFuel
    with n y show ?thesis by simp
  qed
qed

lemma and_then_simps [simp]:
  "and_then None f = None"
  "and_then (Some (Done v, w)) f = f v w"
  "and_then (Some (Thrown e, w)) f = Some (Thrown e, w)"
  by (simp_all add: and_then_def)

lemma settles_run: "settles (\<lambda>n. run n p w)"
  using run_notify_mono_Suc by (simp add: settles_def)

lemma settles_notify: "settles (\<lambda>n. notify n ch a i v w)"
  using run_notify_mono_Suc by (simp add: settles_def)

lemma settles_const: "settles (\<lambda>n. x)"
  by (simp add: settles_def)

lemma limit_const: "fin x \<Longrightarrow> limit (\<lambda>n. x) = Some x"
  using limit_eq[where c = "\<lambda>n. x" and n = 0] settles_const by simp

lemma limit_shift:
  assumes "settles x" and c0: "\<not> fin (c 0)" and c: "\<And>n. c (Suc n) = x n"
  shows "limit c = limit x"
proof (cases "limit x")
  case None
  then have "\<And>n. \<not> fin (x n)" by (simp add: limit_None)
  then have "\<not> fin (c n)" for n using c0 c by (cases n) simp_all
  then have "limit c = None" by (simp add: limit_None)
  with None show ?thesis by simp
next
  case (Some y)
  then obtain n where n: "x n = y" "fin y" using limit_Some by blast
  have "settles c" unfolding settles_def
  proof (intro allI impI)
    fix j assume fj: "fin (c j)"
    show "c (Suc j) = c j"
    proof (cases j)
      case 0 with fj c0 show ?thesis by simp
    next
      case (Suc i)
      with fj c have "fin (x i)" by simp
      with assms(1) have "x (Suc i) = x i" by (simp add: settles_def)
      with c Suc show ?thesis by simp
    qed
  qed
  from limit_eq[OF this, of "Suc n"] n c Some show ?thesis by simp
qed

lemma exec_immediate: "fin (run (Suc 0) p w) \<Longrightarrow> exec p w = Some (run (Suc 0) p w)"
  unfolding exec_def by (rule limit_eq[OF settles_run])

lemma exec_Return [simp]: "exec (Return v) w = Some (Done v, w)"
  by (simp add: exec_immediate)

lemma exec_Throw [simp]: "exec (Throw e) w = Some (Thrown e, w)"
  by (simp add: exec_immediate)

lemma exec_NewPromise [simp]:
  "exec (NewPromise options) w =
     Some (Done (VPromise (length (cells w))), w\<lparr>cells := cells w @ [new_cell options]\<rparr>)"
  by (simp add: exec_immediate)

lemma exec_GetState [simp]:
  "exec (GetState t) w =
     (case cell_of w t of
        None \<Rightarrow> Some (Thrown type_error, w)
      | Some a \<Rightarrow> Some (Done (state_name (p_state (cells w ! a))), w))"
  by (simp add: exec_immediate split: option.splits)

lemma exec_ReadVar [simp]: "exec (ReadVar x) w = Some (Done (arg x (vars w)), w)"
  by (simp add: exec_immediate)

lemma exec_WriteVar [simp]:
  "exec (WriteVar x v) w = Some (Done VUndefined, w\<lparr>vars := (vars w)[x := v]\<rparr>)"
  by (simp add: exec_immediate)

lemma exec_Log [simp]: "exec (Log v) w = Some (Done VUndefined, w\<lparr>logged := logged w @ [v]\<rparr>)"
  by (simp add: exec_immediate)

lemma exec_Bind [simp]: "exec (Bind p k) w = and_then (exec p w) (\<lambda>v w'. exec (k v) w')"
  unfolding exec_def and_then_def
  by (rule limit_seq[where x = "\<lambda>n. run n p w" and f = "\<lambda>n v w'. run n (k v) w'"])
     (simp_all add: settles_run)

lemma exec_NewVar [simp]:
  "exec (NewVar v k) w = exec (k (length (vars w))) (w\<lparr>vars := vars w @ [v]\<rparr>)"
  unfolding exec_def
  by (rule limit_shift[OF settles_run]) simp_all

lemma and_then_const:
  "(case x of None \<Rightarrow> None
    | Some (Done v, w') \<Rightarrow> limit (\<lambda>n. (Done t, w'))
    | Some (Thrown e, w') \<Rightarrow> Some (Thrown e, w')
    | Some (OutOfFuel, w') \<Rightarrow> None) = and_then x (\<lambda>u w'. Some (Done t, w'))"
  by (auto simp: and_then_def limit_const split: option.splits prod.splits outcome.splits)

lemma exec_callback_this:
  "limit (\<lambda>n. case n of 0 \<Rightarrow> (OutOfFuel, w)
            | Suc m \<Rightarrow> seq (run m p w) (\<lambda>u w'. (Done t, w')))
   = and_then (exec p w) (\<lambda>u w'. Some (Done t, w'))"
  unfolding exec_def and_then_const[symmetric]
  by (rule limit_seq[where x = "\<lambda>n. run n p w" and f = "\<lambda>n u w'. (Done t, w')"])
     (simp_all add: settles_run settles_const)

lemma exec_GetData [simp]:
  "exec (GetData t) w =
     (case cell_of w t of
        None \<Rightarrow> Some (Thrown type_error, w)
      | Some a \<Rightarrow>
          (case p_state (cells w ! a) of
             PENDING \<Rightarrow> Some (Thrown pending_error, w)
           | SUCCEEDED \<Rightarrow> Some (Done (p_data (cells w ! a)), w)
           | FAILED \<Rightarrow>
               (case p_options (cells w ! a) of
                  None \<Rightarrow> Some (Thrown type_error, w)
                | Some g \<Rightarrow> exec (g [p_error (cells w ! a)]) w)))"
proof (cases "cell_of w t")
  case None
  then show ?thesis by (simp add: exec_immediate)
next
  case (Some a)
  show ?thesis
  proof (cases "p_state (cells w ! a)")
    case FAILED
    show ?thesis
    proof (cases "p_options (cells w ! a)")
      case None
      with Some FAILED show ?thesis by (simp add: exec_immediate)
    next
      case (Some g)
      have "exec (GetData t) w = exec (g [p_error (cells w ! a)]) w"
        unfolding exec_def
        by (rule limit_shift[OF settles_run]) (simp_all add: Some \<open>cell_of w t = Some a\<close> FAILED)
      with Some \<open>cell_of w t = Some a\<close> FAILED show ?thesis by simp
    qed
  qed (simp_all add: Some exec_immediate)
qed

lemma exec_Succeed [simp]:
  "exec (Succeed t callback) w =
     (case cell_of w t of
        None \<Rightarrow> Some (Thrown type_error, w)
      | Some a \<Rightarrow>
          (case p_state (cells w ! a) of
             PENDING \<Rightarrow>
               Some (Done t, set_cell a ((cells w ! a)
                  \<lparr>successListeners := successListeners (cells w ! a) @ [callback]\<rparr>) w)
           | SUCCEEDED \<Rightarrow>
               and_then (exec (callback [p_data (cells w ! a)]) w) (\<lambda>u w'. Some (Done t, w'))
           | FAILED \<Rightarrow> Some (Done t, w)))"
proof (cases "cell_of w t")
  case None
  then show ?thesis by (simp add: exec_immediate)
next
  case (Some a)
  show ?thesis
  proof (cases "p_state (cells w ! a)")
    case SUCCEEDED
    have "(\<lambda>n. run n (Succeed t callback) w) =
          (\<lambda>n. case n of 0 \<Rightarrow> (OutOfFuel, w)
            | Suc m \<Rightarrow> seq (run m (callback [p_data (cells w ! a)]) w) (\<lambda>u w'. (Done t, w')))"
      by (rule ext) (simp add: Some SUCCEEDED split: nat.splits)
    then show ?thesis
      unfolding exec_def[of "Succeed t callback"] using exec_callback_this Some SUCCEEDED by simp
  qed (simp_all add: Some exec_immediate)
qed

lemma exec_Fail [simp]:
  "exec (Fail t callback) w =
     (case cell_of w t of
        None \<Rightarrow> Some (Thrown type_error, w)
      | Some a \<Rightarrow>
          (case p_state (cells w ! a) of
             PENDING \<Rightarrow>
               Some (Done t, set_cell a ((cells w ! a)
                  \<lparr>failureListeners := failureListeners (cells w ! a) @ [callback]\<rparr>) w)
           | FAILED \<Rightarrow>
               and_then (exec (callback [p_error (cells w ! a)]) w) (\<lambda>u w'. Some (Done t, w'))
           | SUCCEEDED \<Rightarrow> Some (Done t, w)))"
proof (cases "cell_of w t")
  case None
  then show ?thesis by (simp add: exec_immediate)
next
  case (Some a)
  show ?thesis
  proof (cases "p_state (cells w ! a)")
    case FAILED
    have "(\<lambda>n. run n (Fail t callback) w) =
          (\<lambda>n. case n of 0 \<Rightarrow> (OutOfFuel, w)
            | Suc m \<Rightarrow> seq (run m (callback [p_error (cells w ! a)]) w) (\<lambda>u w'. (Done t, w')))"
      by (rule ext) (simp add: Some FAILED split: nat.splits)
    then show ?thesis
      unfolding exec_def[of "Fail t callback"] using exec_callback_this Some FAILED by simp
  qed (simp_all add: Some exec_immediate)
qed

lemma exec_Finish [simp]:
  "exec (Finish t callback) w =
     (case cell_of w t of
        None \<Rightarrow> Some (Thrown type_error, w)
      | Some a \<Rightarrow>
          (if p_state (cells w ! a) = PENDING then
             Some (Done t, set_cell a ((cells w ! a)
                \<lparr>finishListeners := finishListeners (cells w ! a) @ [callback]\<rparr>) w)
           else
             and_then (exec (callback (listener_args FinishCh VUndefined (cells w ! a))) w)
               (\<lambda>u w'. Some (Done t, w'))))"
proof (cases "cell_of w t")
  case None
  then show ?thesis by (simp add: exec_immediate)
next
  case (Some a)
  show ?thesis
  proof (cases "p_state (cells w ! a) = PENDING")
    case False
    have "(\<lambda>n. run n (Finish t callback) w) =
          (\<lambda>n. case n of 0 \<Rightarrow> (OutOfFuel, w)
            | Suc m \<Rightarrow> seq (run m (callback (listener_args FinishCh VUndefined (cells w ! a))) w)
                         (\<lambda>u w'. (Done t, w')))"
      by (rule ext) (simp add: Some False split: nat.splits)
    then show ?thesis
      unfolding exec_def[of "Finish t callback"] using exec_callback_this Some False by simp
  qed (simp_all add: Some exec_immediate)
qed

lemma exec_notify_unfold:
  "exec_notify ch a i v w =
     (if a < length (cells w) \<and> i < length (listeners ch (cells w ! a)) then
        and_then (exec ((listeners ch (cells w ! a) ! i) (listener_args ch v (cells w ! a))) w)
          (\<lambda>u w'. exec_notify ch a (Suc i) v w')
      else Some (Done VUndefined, w))"
proof (cases "a < length (cells w) \<and> i < length (listeners ch (cells w ! a))")
  case True
  have "exec_notify ch a i v w =
        and_then (exec ((listeners ch (cells w ! a) ! i) (listener_args ch v (cells w ! a))) w)
          (\<lambda>u w'. exec_notify ch a (Suc i) v w')"
    unfolding exec_notify_def exec_def and_then_def
    by (rule limit_seq[where
          x = "\<lambda>n. run n ((listeners ch (cells w ! a) ! i) (listener_args ch v (cells w ! a))) w"
          and f = "\<lambda>n u w'. notify n ch a (Suc i) v w'"])
       (simp_all add: settles_run settles_notify True)
  with True show ?thesis by simp
next
  case False
  have n1: "notify (Suc 0) ch a i v w = (Done VUndefined, w)"
    by (subst notify.simps) (simp only: False if_False)
  then have "fin (notify (Suc 0) ch a i v w)" by simp
  from limit_eq[OF settles_notify this] n1
  have "exec_notify ch a i v w = Some (Done VUndefined, w)" by (simp add: exec_notify_def)
  then show ?thesis by (simp only: False if_False)
qed

lemma exec_notify_both:
  "limit (\<lambda>n. case n of 0 \<Rightarrow> (OutOfFuel, w)
            | Suc m \<Rightarrow> seq (notify m ch a 0 v w1) (\<lambda>u w'. notify m FinishCh a 0 v w'))
   = and_then (exec_notify ch a 0 v w1) (\<lambda>u w'. exec_notify FinishCh a 0 v w')"
  unfolding exec_notify_def and_then_def
  by (rule limit_seq[where x = "\<lambda>n. notify n ch a 0 v w1"
        and f = "\<lambda>n u w'. notify n FinishCh a 0 v w'"])
     (simp_all add: settles_notify)

lemma exec_NotifySuccess [simp]:
  "exec (NotifySuccess t v) w =
     (case cell_of w t of
        None \<Rightarrow> Some (Thrown type_error, w)
      | Some a \<Rightarrow>
          (if p_state (cells w ! a) \<noteq> PENDING then Some (Thrown not_pending_error, w)
           else
             and_then
               (exec_notify SuccessCh a 0 v
                  (set_cell a ((cells w ! a)\<lparr>p_state := SUCCEEDED, p_data := v\<rparr>) w))
               (\<lambda>u w'. exec_notify FinishCh a 0 v w')))"
proof (cases "cell_of w t")
  case None
  then show ?thesis by (simp add: exec_immediate)
next
  case (Some a)
  show ?thesis
  proof (cases "p_state (cells w ! a) = PENDING")
    case True
    have "(\<lambda>n. run n (NotifySuccess t v) w) =
          (\<lambda>n. case n of 0 \<Rightarrow> (OutOfFuel, w)
            | Suc m \<Rightarrow> seq (notify m SuccessCh a 0 v
                  (set_cell a ((cells w ! a)\<lparr>p_state := SUCCEEDED, p_data := v\<rparr>) w))
                         (\<lambda>u w'. notify m FinishCh a 0 v w'))"
      by (rule ext) (simp add: Some True split: nat.splits del: notify.simps)
    then show ?thesis
      unfolding exec_def[of "NotifySuccess t v"] using exec_notify_both Some True by simp
  qed (simp_all add: Some exec_immediate)
qed

lemma exec_NotifyFailure [simp]:
  "exec (NotifyFailure t e) w =
     (case cell_of w t of
        None \<Rightarrow> Some (Thrown type_error, w)
      | Some a \<Rightarrow>
          (if p_state (cells w ! a) \<noteq> PENDING then Some (Thrown not_pending_error, w)
           else
             and_then
               (exec_notify FailureCh a 0 e
                  (set_cell a ((cells w ! a)\<lparr>p_state := FAILED, p_error := e\<rparr>) w))
               (\<lambda>u w'. exec_notify FinishCh a 0 e w')))"
proof (cases "cell_of w t")
  case None
  then show ?thesis by (simp add: exec_immediate)
next
  case (Some a)
  show ?thesis
  proof (cases "p_state (cells w ! a) = PENDING")
    case True
    have "(\<lambda>n. run n (NotifyFailure t e) w) =
          (\<lambda>n. case n of 0 \<Rightarrow> (OutOfFuel, w)
            | Suc m \<Rightarrow> seq (notify m FailureCh a 0 e
                  (set_cell a ((cells w ! a)\<lparr>p_state := FAILED, p_error := e\<rparr>) w))
                         (\<lambda>u w'. notify m FinishCh a 0 e w'))"
      by (rule ext) (simp add: Some True split: nat.splits del: notify.simps)
    then show ?thesis
      unfolding exec_def[of "NotifyFailure t e"] using exec_notify_both Some True by simp
  qed (simp_all add: Some exec_immediate)
qed

lemma exec_iff_run: "exec p w = Some x \<longleftrightarrow> (\<exists>n. run n p w = x \<and> fst x \<noteq> OutOfFuel)"
proof
  assume "exec p w = Some x"
  then show "\<exists>n. run n p w = x \<and> fst x \<noteq> OutOfFuel"
    unfolding exec_def using limit_Some[of "\<lambda>n. run n p w" x] by (simp add: fin_def)
next
  assume "\<exists>n. run n p w = x \<and> fst x \<noteq> OutOfFuel"
  then obtain n where "run n p w = x" "fin x" by (auto simp: fin_def)
  then show "exec p w = Some x"
    unfolding exec_def using limit_eq[OF settles_run, of n p w] by simp
qed

lemma seq_reach:
  assumes "R\<^sup>*\<^sup>* w (snd x)" and "\<And>v w'. x = (Done v, w') \<Longrightarrow> R\<^sup>*\<^sup>* w' (snd (f v w'))"
  shows "R\<^sup>*\<^sup>* w (snd (seq x f))"
proof (cases x)
  case (Pair r w1)
  show ?thesis
  proof (cases r)
    case (Done v)
    with Pair assms(1) assms(2)[of v w1] show ?thesis by simp
  qed (use Pair assms(1) in simp_all)
qed

lemma cell_of_Some: "cell_of w t = Some a \<Longrightarrow> t = VPromise a \<and> a < length (cells w)"
  by (cases t) (auto split: if_splits)

lemma run_notify_mutates:
  "(\<forall>p w. mutates\<^sup>*\<^sup>* w (snd (run n p w))) \<and>
   (\<forall>ch a i v w. mutates\<^sup>*\<^sup>* w (snd (notify n ch a i v w)))"
proof (induction n)
  case 0
  show ?case by simp
next
  case (Suc n)
  have R: "\<And>p w. mutates\<^sup>*\<^sup>* w (snd (run n p w))" using Suc by blast
  have N: "\<And>ch a i v w. mutates\<^sup>*\<^sup>* w (snd (notify n ch a i v w))" using Suc by blast
  have 1: "mutates\<^sup>*\<^sup>* w (snd (run (Suc n) p w))" for p w
  proof (cases p)
    case (Bind q k)
    show ?thesis unfolding Bind run.simps by (rule seq_reach) (rule R)+
  next
    case (NewPromise options)
    show ?thesis unfolding NewPromise by (auto intro: mutates.allocate)
  next
    case (GetState t)
    then show ?thesis by (simp split: option.splits)
  next
    case (GetData t)
    then show ?thesis using R by (simp split: option.splits pstate.splits)
  next
    case (Succeed t cb)
    show ?thesis
    proof (cases "cell_of w t")
      case None then show ?thesis using Succeed by simp
    next
      case (Some a)
      note a = cell_of_Some[OF Some]
      show ?thesis
      proof (cases "p_state (cells w ! a)")
        case PENDING
        with a Some Succeed show ?thesis by (auto intro: mutates.subscribe_success)
      next
        case SUCCEEDED
        show ?thesis unfolding Succeed run.simps Some option.case SUCCEEDED pstate.case
          by (rule seq_reach) (simp_all add: R)
      next
        case FAILED
        with Some Succeed show ?thesis by simp
      qed
    qed
  next
    case (Fail t cb)
    show ?thesis
    proof (cases "cell_of w t")
      case None then show ?thesis using Fail by simp
    next
      case (Some a)
      note a = cell_of_Some[OF Some]
      show ?thesis
      proof (cases "p_state (cells w ! a)")
        case PENDING
        with a Some Fail show ?thesis by (auto intro: mutates.subscribe_failure)
      next
        case FAILED
        show ?thesis unfolding Fail run.simps Some option.case FAILED pstate.case
          by (rule seq_reach) (simp_all add: R)
      next
        case SUCCEEDED
        with Some Fail show ?thesis by simp
      qed
    qed
  next
    case (Finish t cb)
    show ?thesis
    proof (cases "cell_of w t")
      case None then show ?thesis using Finish by simp
    next
      case (Some a)
      note a = cell_of_Some[OF Some]
      show ?thesis
      proof (cases "p_state (cells w ! a) = PENDING")
        case True
        with a Some Finish show ?thesis by (auto intro: mutates.subscribe_finish)
      next
        case False
        show ?thesis unfolding Finish run.simps Some option.case if_not_P[OF False]
          by (rule seq_reach) (simp_all add: R)
      qed
    qed
  next
    case (NotifySuccess t v)
    show ?thesis
    proof (cases "cell_of w t")
      case None then show ?thesis using NotifySuccess by simp
    next
      case (Some a)
      note a = cell_of_Some[OF Some]
      show ?thesis
      proof (cases "p_state (cells w ! a) = PENDING")
        case True
        let ?w1 = "set_cell a ((cells w ! a)\<lparr>p_state := SUCCEEDED, p_data := v\<rparr>) w"
        have s: "mutates w ?w1" using a True by (auto intro: mutates.resolve_success)
        have "mutates\<^sup>*\<^sup>* ?w1 (snd (seq (notify n SuccessCh a 0 v ?w1) (\<lambda>u w'. notify n FinishCh a 0 v w')))"
          by (rule seq_reach) (rule N)+
        with s have "mutates\<^sup>*\<^sup>* w (snd (seq (notify n SuccessCh a 0 v ?w1) (\<lambda>u w'. notify n FinishCh a 0 v w')))"
          by (rule converse_rtranclp_into_rtranclp)
        then show ?thesis unfolding NotifySuccess run.simps Some option.case using True by simp
      next
        case False
        with Some NotifySuccess show ?thesis by simp
      qed
    qed
  next
    case (NotifyFailure t v)
    show ?thesis
    proof (cases "cell_of w t")
      case None then show ?thesis using NotifyFailure by simp
    next
      case (Some a)
      note a = cell_of_Some[OF Some]
      show ?thesis
      proof (cases "p_state (cells w ! a) = PENDING")
        case True
        let ?w1 = "set_cell a ((cells w ! a)\<lparr>p_state := FAILED, p_error := v\<rparr>) w"
        have s: "mutates w ?w1" using a True by (auto intro: mutates.resolve_failure)
        have "mutates\<^sup>*\<^sup>* ?w1 (snd (seq (notify n FailureCh a 0 v ?w1) (\<lambda>u w'. notify n FinishCh a 0 v w')))"
          by (rule seq_reach) (rule N)+
        with s have "mutates\<^sup>*\<^sup>* w (snd (seq (notify n FailureCh a 0 v ?w1) (\<lambda>u w'. notify n FinishCh a 0 v w')))"
          by (rule converse_rtranclp_into_rtranclp)
        then show ?thesis unfolding NotifyFailure run.simps Some option.case using True by simp
      next
        case False
        with Some NotifyFailure show ?thesis by simp
      qed
    qed
  next
    case (NewVar v k)
    have "mutates w (w\<lparr>vars := vars w @ [v]\<rparr>)" by (rule mutates.declare_var)
    then show ?thesis using R[where p = "k (length (vars w))" and w = "w\<lparr>vars := vars w @ [v]\<rparr>"] NewVar
      by (simp add: converse_rtranclp_into_rtranclp)
  next
    case (WriteVar x v)
    then show ?thesis by (auto intro: mutates.assign_var)
  next
    case (Log v)
    then show ?thesis by (auto intro: mutates.write_log)
  qed simp_all
  have 2: "mutates\<^sup>*\<^sup>* w (snd (notify (Suc n) ch a i v w))" for ch a i v w
  proof (cases "a < length (cells w) \<and> i < length (listeners ch (cells w ! a))")
    case True
    have "notify (Suc n) ch a i v w =
          seq (run n ((listeners ch (cells w ! a) ! i) (listener_args ch v (cells w ! a))) w)
              (\<lambda>u. notify n ch a (Suc i) v)"
      by (subst notify.simps) (simp only: True simp_thms if_True)
    moreover have "mutates\<^sup>*\<^sup>* w (snd (seq (run n ((listeners ch (cells w ! a) ! i) (listener_args ch v (cells w ! a))) w)
              (\<lambda>u. notify n ch a (Suc i) v)))"
      by (rule seq_reach) (rule R N)+
    ultimately show ?thesis by simp
  next
    case False
    have "notify (Suc n) ch a i v w = (Done VUndefined, w)"
      by (subst notify.simps) (simp only: False if_False)
    then show ?thesis by simp
  qed
  show ?case using 1 2 by blast
qed

lemma mutates_settled:
  assumes "mutates w w'" and "a < length (cells w)"
  shows "a < length (cells w') \<and> p_options (cells w' ! a) = p_options (cells w ! a) \<and>
         (p_state (cells w ! a) \<noteq> PENDING \<longrightarrow> cells w' ! a = cells w ! a)"
  using assms by (induction rule: mutates.induct) (auto simp: set_cell_def nth_append nth_list_update)

lemma reach_settled:
  assumes "mutates\<^sup>*\<^sup>* w w'" and "a < length (cells w)"
  shows "a < length (cells w') \<and> p_options (cells w' ! a) = p_options (cells w ! a) \<and>
         (p_state (cells w ! a) \<noteq> PENDING \<longrightarrow> cells w' ! a = cells w ! a)"
  using assms
proof (induction rule: rtranclp_induct)
  case base
  then show ?case by simp
next
  case (step y z)
  from step.IH[OF step.prems] mutates_settled[OF step.hyps(2), of a] show ?case by auto
qed

section \<open>Settled cells are never written again\<close>

lemma run_settled:
  assumes "a < length (cells w)"
  shows "a < length (cells (snd (run n p w)))"
    and "p_options (cells (snd (run n p w)) ! a) = p_options (cells w ! a)"
    and "p_state (cells w ! a) \<noteq> PENDING \<Longrightarrow> cells (snd (run n p w)) ! a = cells w ! a"
  using reach_settled[OF _ assms, of "snd (run n p w)"] run_notify_mutates[of n] by auto

lemma notify_settled:
  assumes "a < length (cells w)"
  shows "a < length (cells (snd (notify n ch b i v w)))"
    and "p_options (cells (snd (notify n ch b i v w)) ! a) = p_options (cells w ! a)"
    and "p_state (cells w ! a) \<noteq> PENDING \<Longrightarrow> cells (snd (notify n ch b i v w)) ! a = cells w ! a"
  using reach_settled[OF _ assms, of "snd (notify n ch b i v w)"] run_notify_mutates[of n] by auto

lemma resolve_settled:
  assumes a: "a < length (cells w)" and c: "c = cells (set_cell a c w) ! a" and s: "p_state c \<noteq> PENDING"
  shows "cells (snd (seq (notify n ch a 0 v (set_cell a c w)) (\<lambda>u w'. notify n FinishCh a 0 v w'))) ! a = c"
proof -
  let ?w1 = "set_cell a c w"
  have a1: "a < length (cells ?w1)" using a by (simp add: set_cell_def)
  have c1: "cells ?w1 ! a = c" using c by simp
  obtain r w2 where x: "notify n ch a 0 v ?w1 = (r, w2)" by (cases "notify n ch a 0 v ?w1")
  have w2: "a < length (cells w2)" "cells w2 ! a = c"
    using notify_settled(1,3)[OF a1, of n ch a 0 v] x c1 s by simp_all
  show ?thesis
  proof (cases r)
    case (Done u)
    then show ?thesis using x w2 notify_settled(3)[OF w2(1), of n FinishCh a 0 v] s by simp
  qed (use x w2 in simp_all)
qed

lemma resolved_after_NotifySuccess:
  assumes "cell_of w t = Some a" and "p_state (cells w ! a) = PENDING"
  shows "cells (snd (run (Suc n) (NotifySuccess t v) w)) ! a =
         (cells w ! a)\<lparr>p_state := SUCCEEDED, p_data := v\<rparr>"
proof -
  let ?c = "(cells w ! a)\<lparr>p_state := SUCCEEDED, p_data := v\<rparr>"
  have a: "a < length (cells w)" using assms(1) cell_of_Some by blast
  have "cells (snd (seq (notify n SuccessCh a 0 v (set_cell a ?c w))
          (\<lambda>u w'. notify n FinishCh a 0 v w'))) ! a = ?c"
    by (rule resolve_settled) (simp_all add: a set_cell_def)
  then show ?thesis using assms by simp
qed

lemma resolved_after_NotifyFailure:
  assumes "cell_of w t = Some a" and "p_state (cells w ! a) = PENDING"
  shows "cells (snd (run (Suc n) (NotifyFailure t e) w)) ! a =
         (cells w ! a)\<lparr>p_state := FAILED, p_error := e\<rparr>"
proof -
  let ?c = "(cells w ! a)\<lparr>p_state := FAILED, p_error := e\<rparr>"
  have a: "a < length (cells w)" using assms(1) cell_of_Some by blast
  have "cells (snd (seq (notify n FailureCh a 0 e (set_cell a ?c w))
          (\<lambda>u w'. notify n FinishCh a 0 e w'))) ! a = ?c"
    by (rule resolve_settled) (simp_all add: a set_cell_def)
  then show ?thesis using assms by simp
qed

lemma not_pending_after_resolve:
  assumes "cell_of w t = Some a"
    and "first = NotifySuccess t v \<or> first = NotifyFailure t v"
  shows "cell_of (snd (run (Suc n) first w)) t = Some a \<and>
         p_state (cells (snd (run (Suc n) first w)) ! a) \<noteq> PENDING"
proof -
  from assms(1) have t: "t = VPromise a" and a: "a < length (cells w)"
    using cell_of_Some by blast+
  have len: "cell_of (snd (run (Suc n) first w)) t = Some a"
    using run_settled(1)[OF a, of "Suc n" first] t by simp
  show ?thesis
  proof (cases "p_state (cells w ! a) = PENDING")
    case True
    with assms resolved_after_NotifySuccess[OF assms(1) True, of n v]
      resolved_after_NotifyFailure[OF assms(1) True, of n v] len
    show ?thesis by auto
  next
    case False
    with assms len show ?thesis by auto
  qed
qed

section \<open>Claims\<close>

text \<open>
  C1. A resolve entry point called on a cell that is not PENDING throws and leaves the
  store as it is. Called on a PENDING cell, \<^verbatim>\<open>__notifySuccess__\<close> leaves the cell
  SUCCEEDED and \<^verbatim>\<open>__notifyFailure__\<close> leaves it FAILED, whatever the listeners do.
  The state of a cell that is not PENDING is the same after any run of any program, and
  after a first call of a resolve entry point and any run of any program, both resolve
  entry points throw: at most one call ever gets past the state check.
\<close>

theorem single_transition:
  assumes "cell_of w t = Some a"
  shows "(p_state (cells w ! a) \<noteq> PENDING \<longrightarrow>
            run (Suc n) (NotifySuccess t v) w = (Thrown not_pending_error, w) \<and>
            run (Suc n) (NotifyFailure t v) w = (Thrown not_pending_error, w)) \<and>
         (p_state (cells w ! a) = PENDING \<longrightarrow>
            p_state (cells (snd (run (Suc n) (NotifySuccess t v) w)) ! a) = SUCCEEDED \<and>
            p_state (cells (snd (run (Suc n) (NotifyFailure t v) w)) ! a) = FAILED) \<and>
         (p_state (cells w ! a) \<noteq> PENDING \<longrightarrow>
            (\<forall>m p. cell_of (snd (run m p w)) t = Some a \<and>
                   p_state (cells (snd (run m p w)) ! a) = p_state (cells w ! a))) \<and>
         (\<forall>first m p k v'. first = NotifySuccess t v \<or> first = NotifyFailure t v \<longrightarrow>
            run (Suc k) (NotifySuccess t v') (snd (run m p (snd (run (Suc n) first w)))) =
              (Thrown not_pending_error, snd (run m p (snd (run (Suc n) first w)))) \<and>
            run (Suc k) (NotifyFailure t v') (snd (run m p (snd (run (Suc n) first w)))) =
              (Thrown not_pending_error, snd (run m p (snd (run (Suc n) first w)))))"
proof -
  from assms have t: "t = VPromise a" and a: "a < length (cells w)"
    using cell_of_Some by blast+
  have 1: "run (Suc n) (NotifySuccess t v) w = (Thrown not_pending_error, w)"
          "run (Suc n) (NotifyFailure t v) w = (Thrown not_pending_error, w)"
    if "p_state (cells w ! a) \<noteq> PENDING"
    using that assms by simp_all
  have 2: "p_state (cells (snd (run (Suc n) (NotifySuccess t v) w)) ! a) = SUCCEEDED"
          "p_state (cells (snd (run (Suc n) (NotifyFailure t v) w)) ! a) = FAILED"
    if p: "p_state (cells w ! a) = PENDING"
    using resolved_after_NotifySuccess[OF assms p, of n v]
      resolved_after_NotifyFailure[OF assms p, of n v] by simp_all
  have 3: "cell_of (snd (run m p w)) t = Some a \<and>
           p_state (cells (snd (run m p w)) ! a) = p_state (cells w ! a)"
    if "p_state (cells w ! a) \<noteq> PENDING" for m p
    using run_settled(1,3)[OF a, of m p] that t by simp
  have 4: "run (Suc k) (NotifySuccess t v') (snd (run m p (snd (run (Suc n) first w)))) =
             (Thrown not_pending_error, snd (run m p (snd (run (Suc n) first w)))) \<and>
           run (Suc k) (NotifyFailure t v') (snd (run m p (snd (run (Suc n) first w)))) =
             (Thrown not_pending_error, snd (run m p (snd (run (Suc n) first w))))"
    if f: "first = NotifySuccess t v \<or> first = NotifyFailure t v" for first m p k v'
  proof -
    let ?w1 = "snd (run (Suc n) first w)"
    let ?w2 = "snd (run m p ?w1)"
    from not_pending_after_resolve[OF assms f, of n]
    have w1: "cell_of ?w1 t = Some a" "p_state (cells ?w1 ! a) \<noteq> PENDING" by simp_all
    then have a1: "a < length (cells ?w1)" using cell_of_Some by blast
    from run_settled(1,3)[OF a1, of m p] w1(2) t
    have "cell_of ?w2 t = Some a" "p_state (cells ?w2 ! a) \<noteq> PENDING" by simp_all
    then show ?thesis by simp
  qed
  show ?thesis using 1 2 3 4 by blast
qed

theorem single_transition_witness:
  "run (Suc (Suc 0)) (NotifySuccess (VPromise 1) (VNum 2)) two_cells = (Thrown not_pending_error, two_cells) \<and>
   p_state (cells (snd (run (Suc (Suc 0)) (NotifySuccess (VPromise 0) (VNum 2)) two_cells)) ! 0) = SUCCEEDED \<and>
   p_state (cells (snd (run (Suc (Suc 0)) (NotifyFailure (VPromise 0) (VNum 2)) two_cells)) ! 0) = FAILED \<and>
   p_state (cells (snd (run (Suc (Suc 0)) (NotifyFailure (VPromise 1) (VNum 2)) two_cells)) ! 1) = SUCCEEDED \<and>
   fst (run (Suc 0) (NotifyFailure (VPromise 0) (VNum 3))
     (snd (run (Suc 0) (Log VNull)
        (snd (run (Suc (Suc 0)) (NotifySuccess (VPromise 0) (VNum 2)) two_cells))))) = Thrown not_pending_error"
proof -
  have h0: "cell_of two_cells (VPromise 0) = Some 0" and p0: "p_state (cells two_cells ! 0) = PENDING"
    by (simp_all add: two_cells_def new_cell_def)
  have h1: "cell_of two_cells (VPromise 1) = Some 1" and p1: "p_state (cells two_cells ! 1) \<noteq> PENDING"
    by (simp_all add: two_cells_def new_cell_def)
  note t0 = single_transition[OF h0, of "Suc 0" "VNum 2"]
  note t1 = single_transition[OF h1, of "Suc 0" "VNum 2"]
  from t1 p1 have a: "run (Suc (Suc 0)) (NotifySuccess (VPromise 1) (VNum 2)) two_cells = (Thrown not_pending_error, two_cells)"
    by blast
  from t0 p0 have b: "p_state (cells (snd (run (Suc (Suc 0)) (NotifySuccess (VPromise 0) (VNum 2)) two_cells)) ! 0) = SUCCEEDED"
     "p_state (cells (snd (run (Suc (Suc 0)) (NotifyFailure (VPromise 0) (VNum 2)) two_cells)) ! 0) = FAILED"
    by blast+
  from t1 p1 have c: "p_state (cells (snd (run (Suc (Suc 0)) (NotifyFailure (VPromise 1) (VNum 2)) two_cells)) ! 1) = SUCCEEDED"
    by (simp add: two_cells_def new_cell_def)
  from t0 have d: "run (Suc 0) (NotifyFailure (VPromise 0) (VNum 3))
     (snd (run (Suc 0) (Log VNull)
        (snd (run (Suc (Suc 0)) (NotifySuccess (VPromise 0) (VNum 2)) two_cells)))) = (Thrown not_pending_error, 
     (snd (run (Suc 0) (Log VNull)
        (snd (run (Suc (Suc 0)) (NotifySuccess (VPromise 0) (VNum 2)) two_cells)))))"
    by blast
  show ?thesis using a b c d by simp
qed

text \<open>
  C7. \<^verbatim>\<open>data()\<close> throws on a PENDING cell, returns the stored data of a SUCCEEDED
  cell and returns \<^verbatim>\<open>__errorToData__(error)\<close> of a FAILED cell. A cell created
  without options has the default \<^verbatim>\<open>__errorToData__\<close>, which returns null whatever
  its argument; so \<^verbatim>\<open>data()\<close> of a cell FAILED with "boom" returns null and does
  not throw.
\<close>

theorem data_accessor:
  assumes "cell_of w t = Some a"
  shows "(p_state (cells w ! a) = PENDING \<longrightarrow>
            run (Suc n) (GetData t) w = (Thrown pending_error, w)) \<and>
         (p_state (cells w ! a) = SUCCEEDED \<longrightarrow>
            run (Suc n) (GetData t) w = (Done (p_data (cells w ! a)), w)) \<and>
         (p_state (cells w ! a) = FAILED \<longrightarrow>
            (\<forall>g. p_options (cells w ! a) = Some g \<longrightarrow>
               run (Suc n) (GetData t) w = run n (g [p_error (cells w ! a)]) w)) \<and>
         (p_state (cells w ! a) = FAILED \<and> p_options (cells w ! a) = Some errorToData_default \<longrightarrow>
            run (Suc (Suc n)) (GetData t) w = (Done VNull, w)) \<and>
         p_options (new_cell None) = Some errorToData_default \<and>
         (\<forall>args. run (Suc n) (errorToData_default args) w = (Done VNull, w)) \<and>
         exec (Bind (promise None) (\<lambda>p. Bind (NotifyFailure p (VStr ''boom'')) (\<lambda>_. GetData p))) w =
           Some (Done VNull,
                 w\<lparr>cells := cells w @ [(new_cell None)\<lparr>p_state := FAILED, p_error := VStr ''boom''\<rparr>]\<rparr>)"
proof -
  have 1: "exec (Bind (promise None) (\<lambda>p. Bind (NotifyFailure p (VStr ''boom'')) (\<lambda>_. GetData p))) w =
           Some (Done VNull,
                 w\<lparr>cells := cells w @ [(new_cell None)\<lparr>p_state := FAILED, p_error := VStr ''boom''\<rparr>]\<rparr>)"
    by (simp add: promise_def new_cell_def set_cell_def exec_notify_unfold errorToData_default_def)
  show ?thesis using assms 1
    by (simp add: errorToData_default_def new_cell_def)
qed

theorem data_accessor_witness:
  "run (Suc (Suc 0)) (GetData (VPromise 0)) two_cells = (Thrown pending_error, two_cells) \<and>
   run (Suc (Suc 0)) (GetData (VPromise 1)) two_cells = (Done (VNum 1), two_cells) \<and>
   run (Suc (Suc 0)) (GetData (VPromise 0)) failed_cell = (Done VNull, failed_cell)"
proof -
  have h0: "cell_of two_cells (VPromise 0) = Some 0" and p0: "p_state (cells two_cells ! 0) = PENDING"
    by (simp_all add: two_cells_def new_cell_def)
  have h1: "cell_of two_cells (VPromise 1) = Some 1" and p1: "p_state (cells two_cells ! 1) = SUCCEEDED"
    and d1: "p_data (cells two_cells ! 1) = VNum 1"
    by (simp_all add: two_cells_def new_cell_def)
  have h2: "cell_of failed_cell (VPromise 0) = Some 0" and p2: "p_state (cells failed_cell ! 0) = FAILED"
    and o2: "p_options (cells failed_cell ! 0) = Some errorToData_default"
    by (simp_all add: failed_cell_def new_cell_def)
  from data_accessor[OF h0, of "Suc 0"] p0
  have a: "run (Suc (Suc 0)) (GetData (VPromise 0)) two_cells = (Thrown pending_error, two_cells)"
    by blast
  from data_accessor[OF h1, of "Suc 0"] p1 d1
  have b: "run (Suc (Suc 0)) (GetData (VPromise 1)) two_cells = (Done (VNum 1), two_cells)"
    by simp
  from data_accessor[OF h2, of 0] p2 o2
  have c: "run (Suc (Suc 0)) (GetData (VPromise 0)) failed_cell = (Done VNull, failed_cell)"
    by blast
  show ?thesis using a b c by simp
qed


section \<open>A notification calls the registered listeners in order\<close>

lemma exec_settled:
  assumes "exec p w = Some (r, w')" and "a < length (cells w)"
  shows "a < length (cells w')"
    and "p_options (cells w' ! a) = p_options (cells w ! a)"
    and "p_state (cells w ! a) \<noteq> PENDING \<Longrightarrow> cells w' ! a = cells w ! a"
proof -
  from assms(1) obtain n where n: "run n p w = (r, w')" using exec_iff_run by blast
  from run_settled[OF assms(2), of n p] n
  show "a < length (cells w')" "p_options (cells w' ! a) = p_options (cells w ! a)"
    "p_state (cells w ! a) \<noteq> PENDING \<Longrightarrow> cells w' ! a = cells w ! a"
    by simp_all
qed

lemma and_then_cong:
  assumes "\<And>u w'. x = Some (Done u, w') \<Longrightarrow> f u w' = g u w'"
  shows "and_then x f = and_then x g"
  using assms by (auto simp: and_then_def split: option.splits prod.splits outcome.splits)

lemma exec_notify_call_all:
  assumes "a < length (cells w)" and "p_state (cells w ! a) \<noteq> PENDING"
  shows "exec_notify ch a i v w =
         exec (call_all (drop i (listeners ch (cells w ! a))) (listener_args ch v (cells w ! a))) w"
  using assms
proof (induction "length (listeners ch (cells w ! a)) - i" arbitrary: i w)
  case 0
  then have "\<not> (a < length (cells w) \<and> i < length (listeners ch (cells w ! a)))" by simp
  then have "exec_notify ch a i v w = Some (Done VUndefined, w)"
    by (subst exec_notify_unfold) (simp only: if_False)
  moreover have "drop i (listeners ch (cells w ! a)) = []" using 0 by simp
  ultimately show ?case by simp
next
  case (Suc k)
  let ?L = "listeners ch (cells w ! a)"
  let ?args = "listener_args ch v (cells w ! a)"
  from Suc.hyps(2) have i: "i < length ?L" by simp
  then have d: "drop i ?L = ?L ! i # drop (Suc i) ?L" by (simp add: Cons_nth_drop_Suc)
  have "exec_notify ch a i v w =
        and_then (exec ((?L ! i) ?args) w) (\<lambda>u w'. exec_notify ch a (Suc i) v w')"
    using i Suc.prems(1) by (subst exec_notify_unfold) simp
  also have "\<dots> = and_then (exec ((?L ! i) ?args) w) (\<lambda>u w'. exec (call_all (drop (Suc i) ?L) ?args) w')"
  proof (rule and_then_cong)
    fix u w' assume x: "exec ((?L ! i) ?args) w = Some (Done u, w')"
    from exec_settled(1,3)[OF x Suc.prems(1)] Suc.prems(2)
    have w': "a < length (cells w')" "cells w' ! a = cells w ! a" by simp_all
    have "k = length (listeners ch (cells w' ! a)) - Suc i" using Suc.hyps(2) w' by simp
    from Suc.hyps(1)[OF this w'(1)] w'(2) Suc.prems(2)
    show "exec_notify ch a (Suc i) v w' = exec (call_all (drop (Suc i) ?L) ?args) w'" by simp
  qed
  also have "\<dots> = exec (call_all (drop i ?L) ?args) w" by (simp add: d)
  finally show ?case .
qed

lemma exec_NotifySuccess_call_all:
  assumes "cell_of w t = Some a" and "p_state (cells w ! a) = PENDING"
  shows "exec (NotifySuccess t v) w =
         exec (Bind (call_all (successListeners (cells w ! a)) [v])
                (\<lambda>_. call_all (finishListeners (cells w ! a))
                       [VStr ''SUCCEEDED'', v, p_error (cells w ! a)]))
           (set_cell a ((cells w ! a)\<lparr>p_state := SUCCEEDED, p_data := v\<rparr>) w)"
proof -
  let ?c = "(cells w ! a)\<lparr>p_state := SUCCEEDED, p_data := v\<rparr>"
  let ?w1 = "set_cell a ?c w"
  have a: "a < length (cells w)" using assms(1) cell_of_Some by blast
  have a1: "a < length (cells ?w1)" "cells ?w1 ! a = ?c" using a by (simp_all add: set_cell_def)
  have s1: "p_state (cells ?w1 ! a) \<noteq> PENDING" using a1 by simp
  have "exec (NotifySuccess t v) w =
        and_then (exec_notify SuccessCh a 0 v ?w1) (\<lambda>u w'. exec_notify FinishCh a 0 v w')"
    using assms by simp
  also have "\<dots> = and_then (exec (call_all (successListeners (cells w ! a)) [v]) ?w1)
                      (\<lambda>u w'. exec_notify FinishCh a 0 v w')"
    using exec_notify_call_all[OF a1(1) s1, of SuccessCh 0 v] a1(2) by simp
  also have "\<dots> = and_then (exec (call_all (successListeners (cells w ! a)) [v]) ?w1)
                      (\<lambda>u w'. exec (call_all (finishListeners (cells w ! a))
                         [VStr ''SUCCEEDED'', v, p_error (cells w ! a)]) w')"
  proof (rule and_then_cong)
    fix u w' assume x: "exec (call_all (successListeners (cells w ! a)) [v]) ?w1 = Some (Done u, w')"
    from exec_settled(1,3)[OF x a1(1)] s1 a1(2)
    have w': "a < length (cells w')" "cells w' ! a = ?c" by simp_all
    then have "p_state (cells w' ! a) \<noteq> PENDING" by simp
    from exec_notify_call_all[OF w'(1) this, of FinishCh 0 v] w'(2)
    show "exec_notify FinishCh a 0 v w' =
          exec (call_all (finishListeners (cells w ! a)) [VStr ''SUCCEEDED'', v, p_error (cells w ! a)]) w'"
      by simp
  qed
  finally show ?thesis by simp
qed

lemma exec_NotifyFailure_call_all:
  assumes "cell_of w t = Some a" and "p_state (cells w ! a) = PENDING"
  shows "exec (NotifyFailure t e) w =
         exec (Bind (call_all (failureListeners (cells w ! a)) [e])
                (\<lambda>_. call_all (finishListeners (cells w ! a))
                       [VStr ''FAILED'', p_data (cells w ! a), e]))
           (set_cell a ((cells w ! a)\<lparr>p_state := FAILED, p_error := e\<rparr>) w)"
proof -
  let ?c = "(cells w ! a)\<lparr>p_state := FAILED, p_error := e\<rparr>"
  let ?w1 = "set_cell a ?c w"
  have a: "a < length (cells w)" using assms(1) cell_of_Some by blast
  have a1: "a < length (cells ?w1)" "cells ?w1 ! a = ?c" using a by (simp_all add: set_cell_def)
  have s1: "p_state (cells ?w1 ! a) \<noteq> PENDING" using a1 by simp
  have "exec (NotifyFailure t e) w =
        and_then (exec_notify FailureCh a 0 e ?w1) (\<lambda>u w'. exec_notify FinishCh a 0 e w')"
    using assms by simp
  also have "\<dots> = and_then (exec (call_all (failureListeners (cells w ! a)) [e]) ?w1)
                      (\<lambda>u w'. exec_notify FinishCh a 0 e w')"
    using exec_notify_call_all[OF a1(1) s1, of FailureCh 0 e] a1(2) by simp
  also have "\<dots> = and_then (exec (call_all (failureListeners (cells w ! a)) [e]) ?w1)
                      (\<lambda>u w'. exec (call_all (finishListeners (cells w ! a))
                         [VStr ''FAILED'', p_data (cells w ! a), e]) w')"
  proof (rule and_then_cong)
    fix u w' assume x: "exec (call_all (failureListeners (cells w ! a)) [e]) ?w1 = Some (Done u, w')"
    from exec_settled(1,3)[OF x a1(1)] s1 a1(2)
    have w': "a < length (cells w')" "cells w' ! a = ?c" by simp_all
    then have "p_state (cells w' ! a) \<noteq> PENDING" by simp
    from exec_notify_call_all[OF w'(1) this, of FinishCh 0 e] w'(2)
    show "exec_notify FinishCh a 0 e w' =
          exec (call_all (finishListeners (cells w ! a)) [VStr ''FAILED'', p_data (cells w ! a), e]) w'"
      by simp
  qed
  finally show ?thesis by simp
qed

lemma late_on_succeeded:
  assumes "a < length (cells w)" and "p_state (cells w ! a) = SUCCEEDED"
  shows "exec (Succeed (VPromise a) cb) w =
           and_then (exec (cb [p_data (cells w ! a)]) w) (\<lambda>u w'. Some (Done (VPromise a), w'))"
    and "exec (Finish (VPromise a) cb) w =
           and_then (exec (cb [VStr ''SUCCEEDED'', p_data (cells w ! a), p_error (cells w ! a)]) w)
             (\<lambda>u w'. Some (Done (VPromise a), w'))"
    and "exec (Fail (VPromise a) cb) w = Some (Done (VPromise a), w)"
  using assms by simp_all

lemma late_on_failed:
  assumes "a < length (cells w)" and "p_state (cells w ! a) = FAILED"
  shows "exec (Fail (VPromise a) cb) w =
           and_then (exec (cb [p_error (cells w ! a)]) w) (\<lambda>u w'. Some (Done (VPromise a), w'))"
    and "exec (Finish (VPromise a) cb) w =
           and_then (exec (cb [VStr ''FAILED'', p_data (cells w ! a), p_error (cells w ! a)]) w)
             (\<lambda>u w'. Some (Done (VPromise a), w'))"
    and "exec (Succeed (VPromise a) cb) w = Some (Done (VPromise a), w)"
  using assms by simp_all

text \<open>
  C9. On a PENDING cell \<^verbatim>\<open>succeed\<close>, \<^verbatim>\<open>fail\<close> and \<^verbatim>\<open>finish\<close> append the callback
  at the end of their registry, so a registry lists its listeners in registration
  order. \<^verbatim>\<open>__notifySuccess__(v)\<close> sets the state and then does what calling every
  success listener in registry order with \<open>v\<close>, and after them every finish listener
  in registry order with the state, the data and the error, does;
  \<^verbatim>\<open>__notifyFailure__(v)\<close> does the same with the failure listeners.
\<close>

theorem listener_order:
  assumes "cell_of w t = Some a" and "p_state (cells w ! a) = PENDING"
  shows "exec (Succeed t cb) w =
           Some (Done t, set_cell a ((cells w ! a)
             \<lparr>successListeners := successListeners (cells w ! a) @ [cb]\<rparr>) w) \<and>
         exec (Fail t cb) w =
           Some (Done t, set_cell a ((cells w ! a)
             \<lparr>failureListeners := failureListeners (cells w ! a) @ [cb]\<rparr>) w) \<and>
         exec (Finish t cb) w =
           Some (Done t, set_cell a ((cells w ! a)
             \<lparr>finishListeners := finishListeners (cells w ! a) @ [cb]\<rparr>) w) \<and>
         exec (NotifySuccess t v) w =
           exec (Bind (call_all (successListeners (cells w ! a)) [v])
                  (\<lambda>_. call_all (finishListeners (cells w ! a))
                         [VStr ''SUCCEEDED'', v, p_error (cells w ! a)]))
             (set_cell a ((cells w ! a)\<lparr>p_state := SUCCEEDED, p_data := v\<rparr>) w) \<and>
         exec (NotifyFailure t v) w =
           exec (Bind (call_all (failureListeners (cells w ! a)) [v])
                  (\<lambda>_. call_all (finishListeners (cells w ! a))
                         [VStr ''FAILED'', p_data (cells w ! a), v]))
             (set_cell a ((cells w ! a)\<lparr>p_state := FAILED, p_error := v\<rparr>) w)"
proof -
  have "exec (Succeed t cb) w =
           Some (Done t, set_cell a ((cells w ! a)
             \<lparr>successListeners := successListeners (cells w ! a) @ [cb]\<rparr>) w)"
    using assms by simp
  moreover have "exec (Fail t cb) w =
           Some (Done t, set_cell a ((cells w ! a)
             \<lparr>failureListeners := failureListeners (cells w ! a) @ [cb]\<rparr>) w)"
    using assms by simp
  moreover have "exec (Finish t cb) w =
           Some (Done t, set_cell a ((cells w ! a)
             \<lparr>finishListeners := finishListeners (cells w ! a) @ [cb]\<rparr>) w)"
    using assms by simp
  ultimately show ?thesis
    using exec_NotifySuccess_call_all[OF assms, of v] exec_NotifyFailure_call_all[OF assms, of v]
    by (simp only: simp_thms)
qed

theorem listener_order_witness:
  "map_option (\<lambda>x. (fst x, logged (snd x))) (exec (NotifySuccess (VPromise 0) (VNum 7)) listeners_example) =
     Some (Done VUndefined,
       [VArray [VStr ''s1'', VNum 7], VArray [VStr ''s2'', VNum 7],
        VArray [VStr ''f1'', VStr ''SUCCEEDED'', VNum 7, VUndefined],
        VArray [VStr ''f2'', VStr ''SUCCEEDED'', VNum 7, VUndefined]]) \<and>
   map_option (\<lambda>x. (fst x, logged (snd x))) (exec (NotifyFailure (VPromise 0) (VNum 7)) listeners_example) =
     Some (Done VUndefined,
       [VArray [VStr ''x1'', VNum 7],
        VArray [VStr ''f1'', VStr ''FAILED'', VUndefined, VNum 7],
        VArray [VStr ''f2'', VStr ''FAILED'', VUndefined, VNum 7]])"
proof -
  have h: "cell_of listeners_example (VPromise 0) = Some 0"
    and p: "p_state (cells listeners_example ! 0) = PENDING"
    by (simp_all add: listeners_example_def new_cell_def)
  from listener_order[OF h p, of "log_call ''s3''" "VNum 7"]
  have "exec (NotifySuccess (VPromise 0) (VNum 7)) listeners_example =
           exec (Bind (call_all (successListeners (cells listeners_example ! 0)) [VNum 7])
                  (\<lambda>_. call_all (finishListeners (cells listeners_example ! 0))
                         [VStr ''SUCCEEDED'', VNum 7, p_error (cells listeners_example ! 0)]))
             (set_cell 0 ((cells listeners_example ! 0)\<lparr>p_state := SUCCEEDED, p_data := VNum 7\<rparr>) listeners_example)"
    and "exec (NotifyFailure (VPromise 0) (VNum 7)) listeners_example =
           exec (Bind (call_all (failureListeners (cells listeners_example ! 0)) [VNum 7])
                  (\<lambda>_. call_all (finishListeners (cells listeners_example ! 0))
                         [VStr ''FAILED'', p_data (cells listeners_example ! 0), VNum 7]))
             (set_cell 0 ((cells listeners_example ! 0)\<lparr>p_state := FAILED, p_error := VNum 7\<rparr>) listeners_example)"
    by blast+
  then show ?thesis
    by (simp add: listeners_example_def new_cell_def set_cell_def log_call_def)
qed

text \<open>
  C3. A callback registered on a PENDING cell before it is resolved with \<open>v\<close> is
  called from the notification with \<open>v\<close> (a finish callback with the state, the data
  and the error) when its channel matches the transition, and is not called when it
  does not. Registered after the resolution, whatever ran in between, the callback is
  called at once with the same arguments on the matching channel, and on the other
  channel it is neither called nor stored.
\<close>

theorem late_subscription_parity:
  assumes "cell_of w t = Some a" and "p_state (cells w ! a) = PENDING"
  shows "exec (Bind (Succeed t cb) (\<lambda>_. NotifySuccess t v)) w =
           exec (Bind (call_all (successListeners (cells w ! a) @ [cb]) [v])
                  (\<lambda>_. call_all (finishListeners (cells w ! a))
                         [VStr ''SUCCEEDED'', v, p_error (cells w ! a)]))
             (set_cell a ((cells w ! a)\<lparr>successListeners := successListeners (cells w ! a) @ [cb],
                p_state := SUCCEEDED, p_data := v\<rparr>) w) \<and>
         exec (Bind (Finish t cb) (\<lambda>_. NotifySuccess t v)) w =
           exec (Bind (call_all (successListeners (cells w ! a)) [v])
                  (\<lambda>_. call_all (finishListeners (cells w ! a) @ [cb])
                         [VStr ''SUCCEEDED'', v, p_error (cells w ! a)]))
             (set_cell a ((cells w ! a)\<lparr>finishListeners := finishListeners (cells w ! a) @ [cb],
                p_state := SUCCEEDED, p_data := v\<rparr>) w) \<and>
         exec (Bind (Fail t cb) (\<lambda>_. NotifySuccess t v)) w =
           exec (Bind (call_all (successListeners (cells w ! a)) [v])
                  (\<lambda>_. call_all (finishListeners (cells w ! a))
                         [VStr ''SUCCEEDED'', v, p_error (cells w ! a)]))
             (set_cell a ((cells w ! a)\<lparr>failureListeners := failureListeners (cells w ! a) @ [cb],
                p_state := SUCCEEDED, p_data := v\<rparr>) w) \<and>
         exec (Bind (Fail t cb) (\<lambda>_. NotifyFailure t v)) w =
           exec (Bind (call_all (failureListeners (cells w ! a) @ [cb]) [v])
                  (\<lambda>_. call_all (finishListeners (cells w ! a))
                         [VStr ''FAILED'', p_data (cells w ! a), v]))
             (set_cell a ((cells w ! a)\<lparr>failureListeners := failureListeners (cells w ! a) @ [cb],
                p_state := FAILED, p_error := v\<rparr>) w) \<and>
         exec (Bind (Finish t cb) (\<lambda>_. NotifyFailure t v)) w =
           exec (Bind (call_all (failureListeners (cells w ! a)) [v])
                  (\<lambda>_. call_all (finishListeners (cells w ! a) @ [cb])
                         [VStr ''FAILED'', p_data (cells w ! a), v]))
             (set_cell a ((cells w ! a)\<lparr>finishListeners := finishListeners (cells w ! a) @ [cb],
                p_state := FAILED, p_error := v\<rparr>) w) \<and>
         exec (Bind (Succeed t cb) (\<lambda>_. NotifyFailure t v)) w =
           exec (Bind (call_all (failureListeners (cells w ! a)) [v])
                  (\<lambda>_. call_all (finishListeners (cells w ! a))
                         [VStr ''FAILED'', p_data (cells w ! a), v]))
             (set_cell a ((cells w ! a)\<lparr>successListeners := successListeners (cells w ! a) @ [cb],
                p_state := FAILED, p_error := v\<rparr>) w) \<and>
         (\<forall>n m p. 
            exec (Succeed t cb) (snd (run m p (snd (run (Suc n) (NotifySuccess t v) w)))) =
              and_then (exec (cb [v]) (snd (run m p (snd (run (Suc n) (NotifySuccess t v) w)))))
                (\<lambda>u w'. Some (Done t, w')) \<and>
            exec (Finish t cb) (snd (run m p (snd (run (Suc n) (NotifySuccess t v) w)))) =
              and_then (exec (cb [VStr ''SUCCEEDED'', v, p_error (cells w ! a)])
                         (snd (run m p (snd (run (Suc n) (NotifySuccess t v) w)))))
                (\<lambda>u w'. Some (Done t, w')) \<and>
            exec (Fail t cb) (snd (run m p (snd (run (Suc n) (NotifySuccess t v) w)))) =
              Some (Done t, snd (run m p (snd (run (Suc n) (NotifySuccess t v) w)))) \<and>
            exec (Fail t cb) (snd (run m p (snd (run (Suc n) (NotifyFailure t v) w)))) =
              and_then (exec (cb [v]) (snd (run m p (snd (run (Suc n) (NotifyFailure t v) w)))))
                (\<lambda>u w'. Some (Done t, w')) \<and>
            exec (Finish t cb) (snd (run m p (snd (run (Suc n) (NotifyFailure t v) w)))) =
              and_then (exec (cb [VStr ''FAILED'', p_data (cells w ! a), v])
                         (snd (run m p (snd (run (Suc n) (NotifyFailure t v) w)))))
                (\<lambda>u w'. Some (Done t, w')) \<and>
            exec (Succeed t cb) (snd (run m p (snd (run (Suc n) (NotifyFailure t v) w)))) =
              Some (Done t, snd (run m p (snd (run (Suc n) (NotifyFailure t v) w)))))"
proof -
  from assms have t: "t = VPromise a" and a: "a < length (cells w)"
    using cell_of_Some by blast+
  let ?c = "cells w ! a"
  have early: "exec (Bind (reg t cb) (\<lambda>_. res t v)) w = exec (res t v) (set_cell a c' w)"
    if "exec (reg t cb) w = Some (Done t, set_cell a c' w)" for reg res c'
    using that by simp
  have cs: "cell_of (set_cell a c' w) t = Some a" "cells (set_cell a c' w) ! a = c'" for c'
    using a t by (simp_all add: set_cell_def)
  have ss: "set_cell a c2 (set_cell a c1 w) = set_cell a c2 w" for c1 c2
    by (simp add: set_cell_def)
  have e1: "exec (Bind (Succeed t cb) (\<lambda>_. NotifySuccess t v)) w =
           exec (Bind (call_all (successListeners ?c @ [cb]) [v])
                  (\<lambda>_. call_all (finishListeners ?c) [VStr ''SUCCEEDED'', v, p_error ?c]))
             (set_cell a (?c\<lparr>successListeners := successListeners ?c @ [cb],
                p_state := SUCCEEDED, p_data := v\<rparr>) w)"
    using exec_NotifySuccess_call_all[OF cs(1), of "?c\<lparr>successListeners := successListeners ?c @ [cb]\<rparr>" v]
      assms by (simp add: cs ss)
  have e2: "exec (Bind (Finish t cb) (\<lambda>_. NotifySuccess t v)) w =
           exec (Bind (call_all (successListeners ?c) [v])
                  (\<lambda>_. call_all (finishListeners ?c @ [cb]) [VStr ''SUCCEEDED'', v, p_error ?c]))
             (set_cell a (?c\<lparr>finishListeners := finishListeners ?c @ [cb],
                p_state := SUCCEEDED, p_data := v\<rparr>) w)"
    using exec_NotifySuccess_call_all[OF cs(1), of "?c\<lparr>finishListeners := finishListeners ?c @ [cb]\<rparr>" v]
      assms by (simp add: cs ss)
  have e3: "exec (Bind (Fail t cb) (\<lambda>_. NotifySuccess t v)) w =
           exec (Bind (call_all (successListeners ?c) [v])
                  (\<lambda>_. call_all (finishListeners ?c) [VStr ''SUCCEEDED'', v, p_error ?c]))
             (set_cell a (?c\<lparr>failureListeners := failureListeners ?c @ [cb],
                p_state := SUCCEEDED, p_data := v\<rparr>) w)"
    using exec_NotifySuccess_call_all[OF cs(1), of "?c\<lparr>failureListeners := failureListeners ?c @ [cb]\<rparr>" v]
      assms by (simp add: cs ss)
  have e4: "exec (Bind (Fail t cb) (\<lambda>_. NotifyFailure t v)) w =
           exec (Bind (call_all (failureListeners ?c @ [cb]) [v])
                  (\<lambda>_. call_all (finishListeners ?c) [VStr ''FAILED'', p_data ?c, v]))
             (set_cell a (?c\<lparr>failureListeners := failureListeners ?c @ [cb],
                p_state := FAILED, p_error := v\<rparr>) w)"
    using exec_NotifyFailure_call_all[OF cs(1), of "?c\<lparr>failureListeners := failureListeners ?c @ [cb]\<rparr>" v]
      assms by (simp add: cs ss)
  have e5: "exec (Bind (Finish t cb) (\<lambda>_. NotifyFailure t v)) w =
           exec (Bind (call_all (failureListeners ?c) [v])
                  (\<lambda>_. call_all (finishListeners ?c @ [cb]) [VStr ''FAILED'', p_data ?c, v]))
             (set_cell a (?c\<lparr>finishListeners := finishListeners ?c @ [cb],
                p_state := FAILED, p_error := v\<rparr>) w)"
    using exec_NotifyFailure_call_all[OF cs(1), of "?c\<lparr>finishListeners := finishListeners ?c @ [cb]\<rparr>" v]
      assms by (simp add: cs ss)
  have e6: "exec (Bind (Succeed t cb) (\<lambda>_. NotifyFailure t v)) w =
           exec (Bind (call_all (failureListeners ?c) [v])
                  (\<lambda>_. call_all (finishListeners ?c) [VStr ''FAILED'', p_data ?c, v]))
             (set_cell a (?c\<lparr>successListeners := successListeners ?c @ [cb],
                p_state := FAILED, p_error := v\<rparr>) w)"
    using exec_NotifyFailure_call_all[OF cs(1), of "?c\<lparr>successListeners := successListeners ?c @ [cb]\<rparr>" v]
      assms by (simp add: cs ss)
  have late: "exec (Succeed t cb) (snd (run m p (snd (run (Suc n) (NotifySuccess t v) w)))) =
              and_then (exec (cb [v]) (snd (run m p (snd (run (Suc n) (NotifySuccess t v) w)))))
                (\<lambda>u w'. Some (Done t, w')) \<and>
            exec (Finish t cb) (snd (run m p (snd (run (Suc n) (NotifySuccess t v) w)))) =
              and_then (exec (cb [VStr ''SUCCEEDED'', v, p_error ?c])
                         (snd (run m p (snd (run (Suc n) (NotifySuccess t v) w)))))
                (\<lambda>u w'. Some (Done t, w')) \<and>
            exec (Fail t cb) (snd (run m p (snd (run (Suc n) (NotifySuccess t v) w)))) =
              Some (Done t, snd (run m p (snd (run (Suc n) (NotifySuccess t v) w)))) \<and>
            exec (Fail t cb) (snd (run m p (snd (run (Suc n) (NotifyFailure t v) w)))) =
              and_then (exec (cb [v]) (snd (run m p (snd (run (Suc n) (NotifyFailure t v) w)))))
                (\<lambda>u w'. Some (Done t, w')) \<and>
            exec (Finish t cb) (snd (run m p (snd (run (Suc n) (NotifyFailure t v) w)))) =
              and_then (exec (cb [VStr ''FAILED'', p_data ?c, v])
                         (snd (run m p (snd (run (Suc n) (NotifyFailure t v) w)))))
                (\<lambda>u w'. Some (Done t, w')) \<and>
            exec (Succeed t cb) (snd (run m p (snd (run (Suc n) (NotifyFailure t v) w)))) =
              Some (Done t, snd (run m p (snd (run (Suc n) (NotifyFailure t v) w))))" for n m p
  proof -
    let ?s1 = "snd (run (Suc n) (NotifySuccess t v) w)"
    let ?s2 = "snd (run m p ?s1)"
    let ?f1 = "snd (run (Suc n) (NotifyFailure t v) w)"
    let ?f2 = "snd (run m p ?f1)"
    have s1: "a < length (cells ?s1)" "cells ?s1 ! a = ?c\<lparr>p_state := SUCCEEDED, p_data := v\<rparr>"
      by (rule run_settled(1)[OF a]) (rule resolved_after_NotifySuccess[OF assms])
    have s2: "a < length (cells ?s2)" "cells ?s2 ! a = ?c\<lparr>p_state := SUCCEEDED, p_data := v\<rparr>"
      using run_settled(1,3)[OF s1(1), of m p] s1(2) by simp_all
    have f1: "a < length (cells ?f1)" "cells ?f1 ! a = ?c\<lparr>p_state := FAILED, p_error := v\<rparr>"
      by (rule run_settled(1)[OF a]) (rule resolved_after_NotifyFailure[OF assms])
    have f2: "a < length (cells ?f2)" "cells ?f2 ! a = ?c\<lparr>p_state := FAILED, p_error := v\<rparr>"
      using run_settled(1,3)[OF f1(1), of m p] f1(2) by simp_all
    from late_on_succeeded[OF s2(1), of cb] late_on_failed[OF f2(1), of cb] s2(2) f2(2) t
    show ?thesis by simp
  qed
  show ?thesis using e1 e2 e3 e4 e5 e6 late by (simp only: simp_thms)
qed

theorem late_subscription_parity_witness:
  "map_option (\<lambda>x. (fst x, logged (snd x)))
     (exec (Bind (Succeed (VPromise 0) (log_call ''cb'')) (\<lambda>_. NotifySuccess (VPromise 0) (VNum 5))) two_cells) =
     Some (Done VUndefined, [VArray [VStr ''cb'', VNum 5]]) \<and>
   map_option (\<lambda>x. (fst x, logged (snd x)))
     (exec (Succeed (VPromise 0) (log_call ''cb''))
        (snd (run (Suc 0) (Return VNull) (snd (run (Suc (Suc 0)) (NotifySuccess (VPromise 0) (VNum 5)) two_cells))))) =
     Some (Done (VPromise 0), [VArray [VStr ''cb'', VNum 5]]) \<and>
   map_option (\<lambda>x. (fst x, logged (snd x)))
     (exec (Fail (VPromise 0) (log_call ''cb''))
        (snd (run (Suc 0) (Return VNull) (snd (run (Suc (Suc 0)) (NotifySuccess (VPromise 0) (VNum 5)) two_cells))))) =
     Some (Done (VPromise 0), [])"
proof -
  have h: "cell_of two_cells (VPromise 0) = Some 0" and p: "p_state (cells two_cells ! 0) = PENDING"
    by (simp_all add: two_cells_def new_cell_def)
  note t = late_subscription_parity[OF h p, of "log_call ''cb''" "VNum 5"]
  from t have e: "exec (Bind (Succeed (VPromise 0) (log_call ''cb'')) (\<lambda>_. NotifySuccess (VPromise 0) (VNum 5))) two_cells =
           exec (Bind (call_all (successListeners (cells two_cells ! 0) @ [log_call ''cb'']) [VNum 5])
                  (\<lambda>_. call_all (finishListeners (cells two_cells ! 0))
                         [VStr ''SUCCEEDED'', VNum 5, p_error (cells two_cells ! 0)]))
             (set_cell 0 ((cells two_cells ! 0)\<lparr>successListeners := successListeners (cells two_cells ! 0) @ [log_call ''cb''],
                p_state := SUCCEEDED, p_data := VNum 5\<rparr>) two_cells)"
    by blast
  let ?w2 = "snd (run (Suc 0) (Return VNull) (snd (run (Suc (Suc 0)) (NotifySuccess (VPromise 0) (VNum 5)) two_cells)))"
  from t have l: "exec (Succeed (VPromise 0) (log_call ''cb'')) ?w2 =
              and_then (exec (log_call ''cb'' [VNum 5]) ?w2) (\<lambda>u w'. Some (Done (VPromise 0), w'))"
     and f: "exec (Fail (VPromise 0) (log_call ''cb'')) ?w2 = Some (Done (VPromise 0), ?w2)"
    by blast+
  have 1: "map_option (\<lambda>x. (fst x, logged (snd x)))
     (exec (Bind (Succeed (VPromise 0) (log_call ''cb'')) (\<lambda>_. NotifySuccess (VPromise 0) (VNum 5))) two_cells) =
     Some (Done VUndefined, [VArray [VStr ''cb'', VNum 5]])"
    unfolding e by (simp add: two_cells_def new_cell_def set_cell_def log_call_def)
  have 2: "map_option (\<lambda>x. (fst x, logged (snd x))) (exec (Succeed (VPromise 0) (log_call ''cb'')) ?w2) =
     Some (Done (VPromise 0), [VArray [VStr ''cb'', VNum 5]])"
    unfolding l by (simp add: two_cells_def new_cell_def set_cell_def log_call_def)
  have 3: "map_option (\<lambda>x. (fst x, logged (snd x))) (exec (Fail (VPromise 0) (log_call ''cb'')) ?w2) =
     Some (Done (VPromise 0), [])"
    unfolding f by (simp add: two_cells_def new_cell_def set_cell_def log_call_def)
  show ?thesis using 1 2 3 by simp
qed

section \<open>The combinators\<close>

lemma and_then_assoc:
  "and_then (and_then x f) g = and_then x (\<lambda>u w. and_then (f u w) g)"
  by (auto simp: and_then_def split: option.splits prod.splits outcome.splits)

lemma exec_call_all_append:
  "exec (call_all (xs @ ys) args) w =
   and_then (exec (call_all xs args) w) (\<lambda>u w'. exec (call_all ys args) w')"
proof (induction xs arbitrary: w)
  case Nil
  show ?case by simp
next
  case (Cons cb xs)
  show ?case by (simp add: Cons.IH and_then_assoc)
qed

lemma exec_notify_empty:
  assumes "a < length (cells w)" and "listeners ch (cells w ! a) = []"
  shows "exec_notify ch a 0 v w = Some (Done VUndefined, w)"
  using assms by (subst exec_notify_unfold) simp

text \<open>Resolving a cell that is as \<open>promise()\<close> left it.\<close>

lemma exec_NotifySuccess_fresh:
  assumes "a < length (cells w)" and "cells w ! a = new_cell options"
  shows "exec (NotifySuccess (VPromise a) v) w =
         Some (Done VUndefined, set_cell a ((new_cell options)\<lparr>p_state := SUCCEEDED, p_data := v\<rparr>) w)"
  using assms by (simp add: exec_notify_empty new_cell_def set_cell_def)

lemma exec_NotifyFailure_fresh:
  assumes "a < length (cells w)" and "cells w ! a = new_cell options"
  shows "exec (NotifyFailure (VPromise a) e) w =
         Some (Done VUndefined, set_cell a ((new_cell options)\<lparr>p_state := FAILED, p_error := e\<rparr>) w)"
  using assms by (simp add: exec_notify_empty new_cell_def set_cell_def)

lemma fmap_on_succeeded:
  assumes "cell_of w t = Some b" and "p_state (cells w ! b) = SUCCEEDED"
  shows "exec (fmap f t) w =
         and_then (exec (f [p_data (cells w ! b)]) (w\<lparr>cells := cells w @ [new_cell None]\<rparr>))
           (\<lambda>v w2. and_then (exec (NotifySuccess (VPromise (length (cells w))) v) w2)
              (\<lambda>u w3. Some (Done (VPromise (length (cells w))), w3)))"
proof -
  let ?r = "VPromise (length (cells w))"
  let ?w1 = "w\<lparr>cells := cells w @ [new_cell None]\<rparr>"
  from assms(1) have t: "t = VPromise b" and b: "b < length (cells w)"
    using cell_of_Some by blast+
  have b1: "b < length (cells ?w1)" "p_state (cells ?w1 ! b) = SUCCEEDED" "p_data (cells ?w1 ! b) = p_data (cells w ! b)"
    using b assms(2) by (simp_all add: nth_append)
  have "exec (fmap f t) w =
        and_then (and_then (and_then (exec (f [p_data (cells w ! b)]) ?w1) (\<lambda>v w2. exec (NotifySuccess ?r v) w2))
           (\<lambda>u w3. Some (Done t, w3)))
           (\<lambda>u w3. and_then (exec (Fail t (forward_failure ?r)) w3) (\<lambda>u w4. Some (Done ?r, w4)))"
    using b1 t by (simp add: fmap_def promise_def fmap_success_def arg_def)
  also have "\<dots> = and_then (exec (f [p_data (cells w ! b)]) ?w1)
           (\<lambda>v w2. and_then (exec (NotifySuccess ?r v) w2)
              (\<lambda>u w3. and_then (exec (Fail t (forward_failure ?r)) w3) (\<lambda>u w4. Some (Done ?r, w4))))"
    by (simp add: and_then_assoc)
  also have "\<dots> = and_then (exec (f [p_data (cells w ! b)]) ?w1)
           (\<lambda>v w2. and_then (exec (NotifySuccess ?r v) w2) (\<lambda>u w3. Some (Done ?r, w3)))"
  proof (rule and_then_cong)
    fix v w2 assume x: "exec (f [p_data (cells w ! b)]) ?w1 = Some (Done v, w2)"
    from exec_settled(1,3)[OF x b1(1)] b1(2)
    have b2: "b < length (cells w2)" "p_state (cells w2 ! b) = SUCCEEDED" by simp_all
    show "and_then (exec (NotifySuccess ?r v) w2)
              (\<lambda>u w3. and_then (exec (Fail t (forward_failure ?r)) w3) (\<lambda>u w4. Some (Done ?r, w4))) =
          and_then (exec (NotifySuccess ?r v) w2) (\<lambda>u w3. Some (Done ?r, w3))"
    proof (rule and_then_cong)
      fix u w3 assume y: "exec (NotifySuccess ?r v) w2 = Some (Done u, w3)"
      from exec_settled(1,3)[OF y b2(1)] b2(2)
      have "b < length (cells w3)" "p_state (cells w3 ! b) = SUCCEEDED" by simp_all
      then show "and_then (exec (Fail t (forward_failure ?r)) w3) (\<lambda>u w4. Some (Done ?r, w4)) =
                 Some (Done ?r, w3)"
        using t by simp
    qed
  qed
  finally show ?thesis .
qed

lemma fmap_on_failed:
  assumes "cell_of w t = Some b" and "p_state (cells w ! b) = FAILED"
  shows "exec (fmap f t) w =
         Some (Done (VPromise (length (cells w))),
               w\<lparr>cells := cells w @
                    [(new_cell None)\<lparr>p_state := FAILED, p_error := p_error (cells w ! b)\<rparr>]\<rparr>)"
proof -
  from assms(1) have t: "t = VPromise b" and b: "b < length (cells w)"
    using cell_of_Some by blast+
  show ?thesis using b t assms(2)
    by (simp add: fmap_def promise_def forward_failure_def arg_def nth_append
          new_cell_def exec_notify_unfold set_cell_def)
qed

lemma fmap_on_pending:
  assumes "cell_of w t = Some b" and "p_state (cells w ! b) = PENDING"
  shows "exec (fmap f t) w =
         Some (Done (VPromise (length (cells w))),
               set_cell b ((cells w ! b)
                 \<lparr>successListeners := successListeners (cells w ! b) @
                      [fmap_success f (VPromise (length (cells w)))],
                   failureListeners := failureListeners (cells w ! b) @
                      [forward_failure (VPromise (length (cells w)))]\<rparr>)
                 (w\<lparr>cells := cells w @ [new_cell None]\<rparr>))"
proof -
  from assms(1) have t: "t = VPromise b" and b: "b < length (cells w)"
    using cell_of_Some by blast+
  show ?thesis using b t assms(2)
    by (simp add: fmap_def promise_def nth_append set_cell_def)
qed

lemma exec_forward_success_fresh:
  assumes "a < length (cells w)" and "cells w ! a = new_cell options"
  shows "exec (forward_success (VPromise a) (v # vs)) w = Some (Done VUndefined, resolved_success a v w)"
  using assms by (simp add: forward_success_def arg_def exec_NotifySuccess_fresh resolved_success_def del: exec_NotifySuccess)

lemma exec_forward_failure_fresh:
  assumes "a < length (cells w)" and "cells w ! a = new_cell options"
  shows "exec (forward_failure (VPromise a) (e # vs)) w = Some (Done VUndefined, resolved_failure a e w)"
  using assms by (simp add: forward_failure_def arg_def exec_NotifyFailure_fresh resolved_failure_def del: exec_NotifyFailure)

lemma exec_fmap_success_fresh:
  assumes "a < length (cells w)"
    and "exec (f [d]) w = Some (Done v, w3)" and "cells w3 ! a = new_cell options"
  shows "exec (fmap_success f (VPromise a) (d # ds)) w = Some (Done VUndefined, resolved_success a v w3)"
proof -
  have "a < length (cells w3)" using exec_settled(1)[OF assms(2,1)] .
  then show ?thesis using assms(2,3)
    by (simp add: fmap_success_def arg_def exec_NotifySuccess_fresh resolved_success_def del: exec_NotifySuccess)
qed

lemma exec_call_all_snoc:
  assumes "exec (call_all xs args) w = Some (Done u, w2)"
  shows "exec (call_all (xs @ [cb]) args) w = and_then (exec (cb args) w2) (\<lambda>u w'. Some (Done VUndefined, w'))"
  using assms by (simp add: exec_call_all_append)

lemma fmap_pending_then_success:
  assumes t: "cell_of wP t = Some b" and p: "p_state (cells wP ! b) = PENDING"
    and a: "a < length (cells wP)"
    and ls: "successListeners (cells wP ! b) = Ls @ [fmap_success f (VPromise a)]"
    and h1: "exec (call_all Ls [d]) (resolved_success b d wP) = Some (Done u, w2)"
    and h3: "exec (f [d]) w2 = Some (Done v, w3)"
    and h4: "cells w3 ! a = new_cell options"
  shows "exec (NotifySuccess t d) wP =
         exec (call_all (finishListeners (cells wP ! b)) [VStr ''SUCCEEDED'', d, p_error (cells wP ! b)])
           (resolved_success a v w3)"
proof -
  have a1: "a < length (cells (resolved_success b d wP))"
    using a by (simp add: resolved_success_def set_cell_def)
  have a2: "a < length (cells w2)" using exec_settled(1)[OF h1 a1] .
  have "exec (call_all (Ls @ [fmap_success f (VPromise a)]) [d]) (resolved_success b d wP) =
        Some (Done VUndefined, resolved_success a v w3)"
    using exec_call_all_snoc[OF h1] exec_fmap_success_fresh[where f = f and d = d, OF a2 h3 h4] by simp
  then show ?thesis
    using exec_NotifySuccess_call_all[OF t p, of d] ls by (simp add: resolved_success_def)
qed

lemma fmap_pending_then_failure:
  assumes t: "cell_of wP t = Some b" and p: "p_state (cells wP ! b) = PENDING"
    and a: "a < length (cells wP)"
    and ls: "failureListeners (cells wP ! b) = Lf @ [forward_failure (VPromise a)]"
    and h1: "exec (call_all Lf [e]) (resolved_failure b e wP) = Some (Done u, w2)"
    and h2: "cells w2 ! a = new_cell options"
  shows "exec (NotifyFailure t e) wP =
         exec (call_all (finishListeners (cells wP ! b)) [VStr ''FAILED'', p_data (cells wP ! b), e])
           (resolved_failure a e w2)"
proof -
  have a1: "a < length (cells (resolved_failure b e wP))"
    using a by (simp add: resolved_failure_def set_cell_def)
  have a2: "a < length (cells w2)" using exec_settled(1)[OF h1 a1] .
  have "exec (call_all (Lf @ [forward_failure (VPromise a)]) [e]) (resolved_failure b e wP) =
        Some (Done VUndefined, resolved_failure a e w2)"
    using exec_call_all_snoc[OF h1] exec_forward_failure_fresh[OF a2 h2] by simp
  then show ?thesis
    using exec_NotifyFailure_call_all[OF t p, of e] ls by (simp add: resolved_failure_def)
qed

lemmas example_defs = two_cells_def failed_cell_def new_cell_def set_cell_def
  resolved_success_def resolved_failure_def summary_def arg_def

lemma notify_success_last:
  assumes t: "cell_of w t = Some b" and p: "p_state (cells w ! b) = PENDING"
    and ls: "successListeners (cells w ! b) = Ls @ [cb]"
    and h1: "exec (call_all Ls [d]) (resolved_success b d w) = Some (Done u, w2)"
  shows "exec (NotifySuccess t d) w =
         and_then (exec (cb [d]) w2)
           (\<lambda>u w3. exec (call_all (finishListeners (cells w ! b))
                         [VStr ''SUCCEEDED'', d, p_error (cells w ! b)]) w3)"
  using exec_NotifySuccess_call_all[OF t p, of d] ls exec_call_all_snoc[OF h1, of cb]
  by (simp add: resolved_success_def and_then_assoc)

lemma notify_failure_last:
  assumes t: "cell_of w t = Some b" and p: "p_state (cells w ! b) = PENDING"
    and ls: "failureListeners (cells w ! b) = Lf @ [cb]"
    and h1: "exec (call_all Lf [e]) (resolved_failure b e w) = Some (Done u, w2)"
  shows "exec (NotifyFailure t e) w =
         and_then (exec (cb [e]) w2)
           (\<lambda>u w3. exec (call_all (finishListeners (cells w ! b))
                         [VStr ''FAILED'', p_data (cells w ! b), e]) w3)"
  using exec_NotifyFailure_call_all[OF t p, of e] ls exec_call_all_snoc[OF h1, of cb]
  by (simp add: resolved_failure_def and_then_assoc)

lemma join_outer_succeeded:
  assumes a: "a < length (cells w)" and f: "cells w ! a = new_cell options"
    and q: "cell_of w q = Some c" and s: "p_state (cells w ! c) = SUCCEEDED"
  shows "exec (join_outer (VPromise a) (q # qs)) w =
         Some (Done q, resolved_success a (p_data (cells w ! c)) w)"
proof -
  from q have qv: "q = VPromise c" and c: "c < length (cells w)" using cell_of_Some by blast+
  have ne: "c \<noteq> a" using f s by (auto simp: new_cell_def)
  let ?w1 = "resolved_success a (p_data (cells w ! c)) w"
  have c1: "c < length (cells ?w1)" "p_state (cells ?w1 ! c) = SUCCEEDED"
    using c ne s by (simp_all add: resolved_success_def set_cell_def)
  have "exec (Succeed q (forward_success (VPromise a))) w = Some (Done q, ?w1)"
    using c s qv exec_forward_success_fresh[OF a f, of "p_data (cells w ! c)" "[]"] by simp
  moreover have "exec (Fail q (forward_failure (VPromise a))) ?w1 = Some (Done q, ?w1)"
    using c1 qv by simp
  ultimately show ?thesis by (simp add: join_outer_def arg_def del: exec_Succeed exec_Fail)
qed

lemma join_outer_failed:
  assumes a: "a < length (cells w)" and f: "cells w ! a = new_cell options"
    and q: "cell_of w q = Some c" and s: "p_state (cells w ! c) = FAILED"
  shows "exec (join_outer (VPromise a) (q # qs)) w =
         Some (Done q, resolved_failure a (p_error (cells w ! c)) w)"
proof -
  from q have qv: "q = VPromise c" and c: "c < length (cells w)" using cell_of_Some by blast+
  have "exec (Succeed q (forward_success (VPromise a))) w = Some (Done q, w)"
    using c s qv by simp
  moreover have "exec (Fail q (forward_failure (VPromise a))) w =
                 Some (Done q, resolved_failure a (p_error (cells w ! c)) w)"
    using c s qv exec_forward_failure_fresh[OF a f, of "p_error (cells w ! c)" "[]"] by simp
  ultimately show ?thesis by (simp add: join_outer_def arg_def del: exec_Succeed exec_Fail)
qed

lemma join_outer_pending:
  assumes q: "cell_of w q = Some c" and s: "p_state (cells w ! c) = PENDING"
  shows "exec (join_outer (VPromise a) (q # qs)) w = Some (Done q, forwarded a c w)"
proof -
  from q have qv: "q = VPromise c" and c: "c < length (cells w)" using cell_of_Some by blast+
  show ?thesis using c s qv
    by (simp add: join_outer_def arg_def forwarded_def set_cell_def)
qed

lemma join_on_failed:
  assumes "cell_of w tt = Some b" and "p_state (cells w ! b) = FAILED"
  shows "exec (join tt) w =
         Some (Done (VPromise (length (cells w))),
               w\<lparr>cells := cells w @
                    [(new_cell None)\<lparr>p_state := FAILED, p_error := p_error (cells w ! b)\<rparr>]\<rparr>)"
proof -
  from assms(1) have t: "tt = VPromise b" and b: "b < length (cells w)"
    using cell_of_Some by blast+
  show ?thesis using b t assms(2)
    by (simp add: join_def promise_def forward_failure_def arg_def nth_append
          new_cell_def exec_notify_unfold set_cell_def)
qed

lemma join_on_pending:
  assumes "cell_of w tt = Some b" and "p_state (cells w ! b) = PENDING"
  shows "exec (join tt) w = Some (Done (VPromise (length (cells w))), join_wired b w)"
proof -
  from assms(1) have t: "tt = VPromise b" and b: "b < length (cells w)"
    using cell_of_Some by blast+
  show ?thesis using b t assms(2)
    by (simp add: join_def promise_def nth_append set_cell_def join_wired_def)
qed

lemma join_on_succeeded:
  assumes "cell_of w tt = Some b" and "p_state (cells w ! b) = SUCCEEDED"
  shows "exec (join tt) w =
         and_then (exec (join_outer (VPromise (length (cells w))) [p_data (cells w ! b)])
                     (w\<lparr>cells := cells w @ [new_cell None]\<rparr>))
           (\<lambda>u w'. Some (Done (VPromise (length (cells w))), w'))"
proof -
  let ?r = "VPromise (length (cells w))"
  let ?w1 = "w\<lparr>cells := cells w @ [new_cell None]\<rparr>"
  from assms(1) have t: "tt = VPromise b" and b: "b < length (cells w)"
    using cell_of_Some by blast+
  have b1: "b < length (cells ?w1)" "p_state (cells ?w1 ! b) = SUCCEEDED" "p_data (cells ?w1 ! b) = p_data (cells w ! b)"
    using b assms(2) by (simp_all add: nth_append)
  have "exec (join tt) w =
        and_then (exec (join_outer ?r [p_data (cells w ! b)]) ?w1)
          (\<lambda>u w2. and_then (exec (Fail tt (forward_failure ?r)) w2) (\<lambda>u w3. Some (Done ?r, w3)))"
    using b1 t by (simp add: join_def promise_def and_then_assoc)
  also have "\<dots> = and_then (exec (join_outer ?r [p_data (cells w ! b)]) ?w1)
          (\<lambda>u w2. Some (Done ?r, w2))"
  proof (rule and_then_cong)
    fix u w2 assume x: "exec (join_outer ?r [p_data (cells w ! b)]) ?w1 = Some (Done u, w2)"
    from exec_settled(1,3)[OF x b1(1)] b1(2)
    have "b < length (cells w2)" "p_state (cells w2 ! b) = SUCCEEDED" by simp_all
    then show "and_then (exec (Fail tt (forward_failure ?r)) w2) (\<lambda>u w3. Some (Done ?r, w3)) =
               Some (Done ?r, w2)"
      using t by simp
  qed
  finally show ?thesis .
qed

lemma settled_after:
  assumes "exec p w = Some (x, w4)" and "a < length (cells w)" and "cells w ! a = c"
    and "p_state c \<noteq> PENDING"
  shows "cells w4 ! a = c"
  using exec_settled(3)[OF assms(1,2)] assms(3,4) by simp

lemma resolved_success_cell:
  "a < length (cells w) \<Longrightarrow> cells w ! a = c \<Longrightarrow>
   a < length (cells (resolved_success a v w)) \<and>
   cells (resolved_success a v w) ! a = c\<lparr>p_state := SUCCEEDED, p_data := v\<rparr>"
  by (simp add: resolved_success_def set_cell_def)

lemma resolved_failure_cell:
  "a < length (cells w) \<Longrightarrow> cells w ! a = c \<Longrightarrow>
   a < length (cells (resolved_failure a e w)) \<and>
   cells (resolved_failure a e w) ! a = c\<lparr>p_state := FAILED, p_error := e\<rparr>"
  by (simp add: resolved_failure_def set_cell_def)

lemma resolved_length [simp]:
  "length (cells (resolved_success a v w)) = length (cells w)"
  "length (cells (resolved_failure a v w)) = length (cells w)"
  by (simp_all add: resolved_success_def resolved_failure_def set_cell_def)

text \<open>A PENDING cell whose last success listener forwards to a fresh cell.\<close>

lemma forward_on_success:
  assumes t: "cell_of w t = Some c" and p: "p_state (cells w ! c) = PENDING"
    and ls: "successListeners (cells w ! c) = Ls @ [forward_success (VPromise a)]"
    and h1: "exec (call_all Ls [d]) (resolved_success c d w) = Some (Done u, w2)"
    and a: "a < length (cells w)" and h2: "cells w2 ! a = new_cell options"
    and h5: "exec (call_all (finishListeners (cells w ! c)) [VStr ''SUCCEEDED'', d, p_error (cells w ! c)])
               (resolved_success a d w2) = Some (x, w4)"
  shows "exec (NotifySuccess t d) w = Some (x, w4) \<and>
         cells w4 ! a = (new_cell options)\<lparr>p_state := SUCCEEDED, p_data := d\<rparr>"
proof -
  have a2: "a < length (cells w2)" using exec_settled(1)[OF h1] a by simp
  have "exec (NotifySuccess t d) w = Some (x, w4)"
    using notify_success_last[OF t p ls h1] exec_forward_success_fresh[OF a2 h2, of d "[]"] h5
    by simp
  moreover have "cells w4 ! a = (new_cell options)\<lparr>p_state := SUCCEEDED, p_data := d\<rparr>"
    using settled_after[OF h5] resolved_success_cell[OF a2 h2, of d] by simp
  ultimately show ?thesis by simp
qed

lemma forward_on_failure:
  assumes t: "cell_of w t = Some c" and p: "p_state (cells w ! c) = PENDING"
    and ls: "failureListeners (cells w ! c) = Lf @ [forward_failure (VPromise a)]"
    and h1: "exec (call_all Lf [e]) (resolved_failure c e w) = Some (Done u, w2)"
    and a: "a < length (cells w)" and h2: "cells w2 ! a = new_cell options"
    and h5: "exec (call_all (finishListeners (cells w ! c)) [VStr ''FAILED'', p_data (cells w ! c), e])
               (resolved_failure a e w2) = Some (x, w4)"
  shows "exec (NotifyFailure t e) w = Some (x, w4) \<and>
         cells w4 ! a = (new_cell options)\<lparr>p_state := FAILED, p_error := e\<rparr>"
proof -
  have a2: "a < length (cells w2)" using exec_settled(1)[OF h1] a by simp
  have "exec (NotifyFailure t e) w = Some (x, w4)"
    using notify_failure_last[OF t p ls h1] exec_forward_failure_fresh[OF a2 h2, of e "[]"] h5
    by simp
  moreover have "cells w4 ! a = (new_cell options)\<lparr>p_state := FAILED, p_error := e\<rparr>"
    using settled_after[OF h5] resolved_failure_cell[OF a2 h2, of e] by simp
  ultimately show ?thesis by simp
qed

lemma forwarded_cell:
  assumes "c < length (cells w)"
  shows "cell_of (forwarded a c w) (VPromise c) = Some c"
    and "length (cells (forwarded a c w)) = length (cells w)"
    and "p_state (cells (forwarded a c w) ! c) = p_state (cells w ! c)"
    and "p_data (cells (forwarded a c w) ! c) = p_data (cells w ! c)"
    and "p_error (cells (forwarded a c w) ! c) = p_error (cells w ! c)"
    and "finishListeners (cells (forwarded a c w) ! c) = finishListeners (cells w ! c)"
    and "successListeners (cells (forwarded a c w) ! c) =
           successListeners (cells w ! c) @ [forward_success (VPromise a)]"
    and "failureListeners (cells (forwarded a c w) ! c) =
           failureListeners (cells w ! c) @ [forward_failure (VPromise a)]"
  using assms by (simp_all add: forwarded_def set_cell_def)

lemma join_wired_cell:
  assumes "b < length (cells w)"
  shows "cell_of (join_wired b w) (VPromise b) = Some b"
    and "length (cells w) < length (cells (join_wired b w))"
    and "cells (join_wired b w) ! length (cells w) = new_cell None"
    and "p_state (cells (join_wired b w) ! b) = p_state (cells w ! b)"
    and "p_data (cells (join_wired b w) ! b) = p_data (cells w ! b)"
    and "p_error (cells (join_wired b w) ! b) = p_error (cells w ! b)"
    and "finishListeners (cells (join_wired b w) ! b) = finishListeners (cells w ! b)"
    and "successListeners (cells (join_wired b w) ! b) =
           successListeners (cells w ! b) @ [join_outer (VPromise (length (cells w)))]"
    and "failureListeners (cells (join_wired b w) ! b) =
           failureListeners (cells w ! b) @ [forward_failure (VPromise (length (cells w)))]"
  using assms by (simp_all add: join_wired_def set_cell_def nth_append)

section \<open>\<^verbatim>\<open>liftA\<close> waits for every input\<close>

lemma exec_map_data:
  assumes "\<forall>b \<in> set bs. b < length (cells W) \<and> settled_in W b \<and>
             p_options (cells W ! b) = Some (pure_call (fb b))"
  shows "exec (map_data (map VPromise bs)) W = Some (Done (VArray (map (data_of fb W) bs)), W)"
  using assms
proof (induction bs)
  case Nil
  show ?case by simp
next
  case (Cons b bs)
  then have b: "b < length (cells W)" "p_state (cells W ! b) \<noteq> PENDING"
    "p_options (cells W ! b) = Some (pure_call (fb b))"
    by (simp_all add: settled_in_def)
  have "exec (GetData (VPromise b)) W = Some (Done (data_of fb W b), W)"
    using b by (cases "p_state (cells W ! b)") (simp_all add: data_of_def pure_call_def)
  moreover have "exec (map_data (map VPromise bs)) W = Some (Done (VArray (map (data_of fb W) bs)), W)"
    using Cons by simp
  ultimately show ?case by (simp del: exec_GetData)
qed

lemma exec_liftA_finish:
  assumes "x < length (vars W)" and "vars W ! x = VNum k"
  shows "exec (liftA_finish f N r x y args) W =
         (if k + 1 = int N then
            and_then (exec (map_data (case arg y ((vars W)[x := VNum (k + 1)]) of VArray xs \<Rightarrow> xs | _ \<Rightarrow> []))
                        (W\<lparr>vars := (vars W)[x := VNum (k + 1)]\<rparr>))
                 (\<lambda>args W2. and_then (exec (f (case args of VArray xs \<Rightarrow> xs | _ \<Rightarrow> [])) W2)
                    (\<lambda>res W3. exec (NotifySuccess r res) W3))
          else Some (Done VUndefined, W\<lparr>vars := (vars W)[x := VNum (k + 1)]\<rparr>))"
  using assms by (simp add: liftA_finish_def arg_def increment_def del: exec_NotifySuccess)

lemma data_of_cong: "cells W' ! b = cells W ! b \<Longrightarrow> data_of fb W' b = data_of fb W b"
  by (simp add: data_of_def split: pstate.split)

lemma data_of_vars [simp]: "data_of fb (W\<lparr>vars := v\<rparr>) = data_of fb W"
  by (rule ext) (simp add: data_of_def split: pstate.split)

lemma settled_in_vars [simp]: "settled_in (W\<lparr>vars := v\<rparr>) = settled_in W"
  by (rule ext) (simp add: settled_in_def)

text \<open>The closure registered by liftA, run on a store where the result is still fresh.\<close>

lemma liftA_finish_fires:
  assumes x: "Suc x < length (vars V)" and k: "vars V ! x = VNum k"
    and tv: "vars V ! Suc x = VArray (map VPromise cur)"
    and a: "a < length (cells V)" and fresh: "cells V ! a = new_cell None"
    and all: "k + 1 = int N \<Longrightarrow> \<forall>b \<in> set cur. b < length (cells V) \<and> settled_in V b \<and>
                p_options (cells V ! b) = Some (pure_call (fb b))"
  shows "exec (liftA_finish (pure_call g) N (VPromise a) x (Suc x) args) V =
         Some (Done VUndefined,
           (if k + 1 = int N
            then resolved_success a (g (map (data_of fb V) cur)) (V\<lparr>vars := (vars V)[x := VNum (k + 1)]\<rparr>)
            else V\<lparr>vars := (vars V)[x := VNum (k + 1)]\<rparr>))"
proof -
  let ?V1 = "V\<lparr>vars := (vars V)[x := VNum (k + 1)]\<rparr>"
  have x0: "x < length (vars V)" using x by simp
  note e = exec_liftA_finish[OF x0 k, of "pure_call g" N "VPromise a" "Suc x" args]
  show ?thesis
  proof (cases "k + 1 = int N")
    case False
    with e show ?thesis by simp
  next
    case True
    have arr: "arg (Suc x) ((vars V)[x := VNum (k + 1)]) = VArray (map VPromise cur)"
      using x tv by (simp add: arg_def)
    have c1: "cells ?V1 = cells V" by simp
    have "\<forall>b \<in> set cur. b < length (cells ?V1) \<and> settled_in ?V1 b \<and>
             p_options (cells ?V1 ! b) = Some (pure_call (fb b))"
      using all[OF True] by (simp add: settled_in_def)
    from exec_map_data[OF this]
    have m: "exec (map_data (map VPromise cur)) ?V1 = Some (Done (VArray (map (data_of fb V) cur)), ?V1)"
      by simp
    have n: "exec (NotifySuccess (VPromise a) v) ?V1 = Some (Done VUndefined, resolved_success a v ?V1)" for v
      using exec_NotifySuccess_fresh[of a ?V1 None v] a fresh by (simp add: resolved_success_def)
    show ?thesis using e True arr m n by (simp add: pure_call_def del: exec_NotifySuccess)
  qed
qed

lemma count_step:
  assumes "distinct bs" and "b \<in> set bs" and "\<not> P b" and "P' b"
    and "\<forall>b' \<in> set bs. b' \<noteq> b \<longrightarrow> P' b' = P b'"
  shows "length (filter P' bs) = Suc (length (filter P bs))"
  using assms
proof (induction bs)
  case Nil
  then show ?case by simp
next
  case (Cons c bs)
  show ?case
  proof (cases "c = b")
    case True
    then have "b \<notin> set bs" using Cons.prems(1) by simp
    then have "filter P' bs = filter P bs" using Cons.prems(5) by (intro filter_cong) auto
    with True Cons.prems show ?thesis by simp
  next
    case False
    then have "b \<in> set bs" using Cons.prems(2) by simp
    from Cons.IH[OF _ this Cons.prems(3,4)] Cons.prems(1,5)
    have "length (filter P' bs) = Suc (length (filter P bs))" by simp
    moreover have "P' c = P c" using False Cons.prems(5) by simp
    ultimately show ?thesis by simp
  qed
qed

lemma count_all: "length (filter P bs) = length bs \<longleftrightarrow> (\<forall>b \<in> set bs. P b)"
proof (induction bs)
  case Nil
  show ?case by simp
next
  case (Cons c bs)
  have le: "length (filter P bs) \<le> length bs" by (rule length_filter_le)
  show ?case
  proof (cases "P c")
    case True
    with Cons show ?thesis by simp
  next
    case False
    have "length (filter P bs) \<noteq> Suc (length bs)" using le by arith
    with False show ?thesis by auto
  qed
qed

lemma lift_inv_settle:
  assumes inv: "lift_inv g fb bs a x bs W" and d: "distinct bs"
    and b: "b \<in> set bs" and p: "p_state (cells W ! b) = PENDING"
    and s: "p_state c' \<noteq> PENDING" and o: "p_options c' = p_options (cells W ! b)"
  shows "\<exists>W'. exec (liftA_finish (pure_call g) (length bs) (VPromise a) x (Suc x) args) (set_cell b c' W) =
              Some (Done VUndefined, W') \<and>
            lift_inv g fb bs a x bs W' \<and> cells W' ! b = c' \<and>
            (\<forall>b'. b' \<noteq> b \<and> b' \<noteq> a \<longrightarrow> cells W' ! b' = cells W ! b') \<and>
            length (cells W') = length (cells W) \<and> logged W' = logged W"
proof -
  let ?V = "set_cell b c' W"
  let ?k = "int (length (filter (settled_in W) bs))"
  let ?cb = "liftA_finish (pure_call g) (length bs) (VPromise a) x (Suc x)"
  from inv have a: "a < length (cells W)" and x: "Suc x < length (vars W)"
    and k: "vars W ! x = VNum ?k" and tv: "vars W ! Suc x = VArray (map VPromise bs)"
    and inp: "\<forall>b \<in> set bs. b < length (cells W) \<and> b \<noteq> a \<and>
         p_options (cells W ! b) = Some (pure_call (fb b)) \<and>
         (p_state (cells W ! b) = PENDING \<longrightarrow>
            successListeners (cells W ! b) = [] \<and> failureListeners (cells W ! b) = [] \<and>
            finishListeners (cells W ! b) = [?cb])"
    and ca: "cells W ! a =
        (if \<forall>b \<in> set bs. settled_in W b
         then (new_cell None)\<lparr>p_state := SUCCEEDED, p_data := g (map (data_of fb W) bs)\<rparr>
         else new_cell None)"
    by (simp_all add: lift_inv_def)
  from inp b have bl: "b < length (cells W)" and ba: "b \<noteq> a" by auto
  have nb: "\<not> settled_in W b" using p by (simp add: settled_in_def)
  then have fresh: "cells W ! a = new_cell None" using ca b by auto
  have Vb: "cells ?V ! b = c'" using bl by (simp add: set_cell_def)
  have Vo: "cells ?V ! b' = cells W ! b'" if "b' \<noteq> b" for b'
    using that by (simp add: set_cell_def)
  have Vl: "length (cells ?V) = length (cells W)" by (simp add: set_cell_def)
  have Vv: "vars ?V = vars W" "logged ?V = logged W" by (simp_all add: set_cell_def)
  have sb: "settled_in ?V b" using Vb s by (simp add: settled_in_def)
  have so: "\<forall>b' \<in> set bs. b' \<noteq> b \<longrightarrow> settled_in ?V b' = settled_in W b'"
    using Vo by (simp add: settled_in_def)
  have cnt: "length (filter (settled_in ?V) bs) = Suc (length (filter (settled_in W) bs))"
    by (rule count_step[OF d b nb sb so])
  have opt: "\<forall>b' \<in> set bs. b' < length (cells ?V) \<and> p_options (cells ?V ! b') = Some (pure_call (fb b'))"
  proof
    fix b' assume "b' \<in> set bs"
    with inp have "b' < length (cells W)" "p_options (cells W ! b') = Some (pure_call (fb b'))" by auto
    then show "b' < length (cells ?V) \<and> p_options (cells ?V ! b') = Some (pure_call (fb b'))"
      using Vl Vb Vo[of b'] o by (cases "b' = b") simp_all
  qed
  have all: "\<forall>b' \<in> set bs. b' < length (cells ?V) \<and> settled_in ?V b' \<and>
                p_options (cells ?V ! b') = Some (pure_call (fb b'))"
    if "?k + 1 = int (length bs)"
  proof -
    from that cnt have "length (filter (settled_in ?V) bs) = length bs" by simp
    then have "\<forall>b' \<in> set bs. settled_in ?V b'" by (simp add: count_all)
    with opt show ?thesis by simp
  qed
  let ?V1 = "?V\<lparr>vars := (vars ?V)[x := VNum (?k + 1)]\<rparr>"
  define W' where "W' = (if ?k + 1 = int (length bs)
             then resolved_success a (g (map (data_of fb ?V) bs)) ?V1 else ?V1)"
  have fire: "exec (?cb args) ?V = Some (Done VUndefined, W')"
    unfolding W'_def
    using liftA_finish_fires[where V = ?V and cur = bs and N = "length bs" and fb = fb and g = g
        and a = a and x = x and k = ?k and args = args]
      x k tv a fresh all Vv Vl Vo[of a] ba
    by simp
  have Wc: "cells W' ! b' = cells ?V ! b'" if "b' \<noteq> a" for b'
    using that by (simp add: W'_def resolved_success_def set_cell_def)
  have Wl: "length (cells W') = length (cells W)" using Vl by (simp add: W'_def)
  have Wlog: "logged W' = logged W" using Vv by (simp add: W'_def resolved_success_def set_cell_def)
  have Wv: "vars W' = (vars W)[x := VNum (?k + 1)]"
    using Vv by (simp add: W'_def resolved_success_def set_cell_def)
  have WaT: "cells W' ! a = (new_cell None)\<lparr>p_state := SUCCEEDED, p_data := g (map (data_of fb ?V) bs)\<rparr>"
    if "?k + 1 = int (length bs)"
    using that a fresh Vo[of a] ba Vl by (simp add: W'_def resolved_success_def set_cell_def)
  have WaF: "cells W' ! a = new_cell None" if "?k + 1 \<noteq> int (length bs)"
    using that fresh Vo[of a] ba by (simp add: W'_def)
  have Ws: "settled_in W' b' = settled_in ?V b'" if "b' \<in> set bs" for b'
    using that inp Wc[of b'] by (auto simp: settled_in_def)
  have Wd: "data_of fb W' b' = data_of fb ?V b'" if "b' \<in> set bs" for b'
    using that inp Wc[of b'] by (intro data_of_cong) auto
  have fW: "filter (settled_in W') bs = filter (settled_in ?V) bs"
    using Ws by (intro filter_cong) auto
  have mW: "map (data_of fb W') bs = map (data_of fb ?V) bs"
    using Wd by (intro map_cong) auto
  have aW: "(\<forall>b' \<in> set bs. settled_in W' b') \<longleftrightarrow> ?k + 1 = int (length bs)"
  proof -
    have "(\<forall>b' \<in> set bs. settled_in W' b') \<longleftrightarrow> (\<forall>b' \<in> set bs. settled_in ?V b')"
      using Ws by simp
    also have "\<dots> \<longleftrightarrow> length (filter (settled_in ?V) bs) = length bs" by (simp add: count_all)
    also have "\<dots> \<longleftrightarrow> ?k + 1 = int (length bs)" using cnt by auto
    finally show ?thesis .
  qed
  have Wa: "cells W' ! a =
        (if \<forall>b \<in> set bs. settled_in W' b
         then (new_cell None)\<lparr>p_state := SUCCEEDED, p_data := g (map (data_of fb W') bs)\<rparr>
         else new_cell None)"
  proof (cases "?k + 1 = int (length bs)")
    case True
    note c1 = WaT[OF True]
    have gm: "g (map (data_of fb W') bs) = g (map (data_of fb ?V) bs)"
      using mW by (rule arg_cong)
    have all': "\<forall>b \<in> set bs. settled_in W' b" using aW True by blast
    show ?thesis unfolding if_P[OF all'] gm by (rule c1)
  next
    case False
    note c1 = WaF[OF False]
    have all': "\<not> (\<forall>b \<in> set bs. settled_in W' b)" using aW False by blast
    show ?thesis unfolding if_not_P[OF all'] by (rule c1)
  qed
  have Wi: "\<forall>b' \<in> set bs. b' < length (cells W') \<and> b' \<noteq> a \<and>
         p_options (cells W' ! b') = Some (pure_call (fb b')) \<and>
         (p_state (cells W' ! b') = PENDING \<longrightarrow>
            successListeners (cells W' ! b') = [] \<and> failureListeners (cells W' ! b') = [] \<and>
            finishListeners (cells W' ! b') = [?cb])"
  proof
    fix b' assume m: "b' \<in> set bs"
    with inp have i: "b' < length (cells W)" "b' \<noteq> a" 
      "p_state (cells W ! b') = PENDING \<longrightarrow>
            successListeners (cells W ! b') = [] \<and> failureListeners (cells W ! b') = [] \<and>
            finishListeners (cells W ! b') = [?cb]" by auto
    have c: "cells W' ! b' = cells ?V ! b'" using Wc i(2) by simp
    note ob = opt[rule_format, OF m]
    show "b' < length (cells W') \<and> b' \<noteq> a \<and>
         p_options (cells W' ! b') = Some (pure_call (fb b')) \<and>
         (p_state (cells W' ! b') = PENDING \<longrightarrow>
            successListeners (cells W' ! b') = [] \<and> failureListeners (cells W' ! b') = [] \<and>
            finishListeners (cells W' ! b') = [?cb])"
    proof (cases "b' = b")
      case True
      then show ?thesis using c Vb s i ob Wl by simp
    next
      case False
      then show ?thesis using c Vo[of b'] i ob Wl by simp
    qed
  qed
  have Wk: "vars W' ! x = VNum (int (length (filter (settled_in W') bs)))"
    using Wv x cnt fW by simp
  have Wt: "vars W' ! Suc x = VArray (map VPromise bs)" using Wv x tv by simp
  have "lift_inv g fb bs a x bs W'"
    unfolding lift_inv_def using a x Wl Wv Wk Wt Wi Wa by simp
  moreover have "cells W' ! b = c'" using Wc[of b] ba Vb by simp
  moreover have "\<forall>b'. b' \<noteq> b \<and> b' \<noteq> a \<longrightarrow> cells W' ! b' = cells W ! b'"
    using Wc Vo by simp
  ultimately show ?thesis using fire Wl Wlog by blast
qed

lemma lift_inv_pending:
  assumes "lift_inv g fb bs a x bs W" and "b \<in> set bs" and "p_state (cells W ! b) = PENDING"
  shows "cell_of W (VPromise b) = Some b"
    and "successListeners (cells W ! b) = []" and "failureListeners (cells W ! b) = []"
    and "finishListeners (cells W ! b) = [liftA_finish (pure_call g) (length bs) (VPromise a) x (Suc x)]"
  using assms by (auto simp: lift_inv_def)

lemma lift_inv_resolve:
  assumes inv: "lift_inv g fb bs a x bs W" and d: "distinct bs"
    and b: "b \<in> set bs" and p: "p_state (cells W ! b) = PENDING"
  shows "\<exists>W'. exec (NotifySuccess (VPromise b) v) W = Some (Done VUndefined, W') \<and>
            lift_inv g fb bs a x bs W' \<and>
            cells W' ! b = (cells W ! b)\<lparr>p_state := SUCCEEDED, p_data := v\<rparr> \<and>
            (\<forall>b'. b' \<noteq> b \<and> b' \<noteq> a \<longrightarrow> cells W' ! b' = cells W ! b') \<and>
            length (cells W') = length (cells W) \<and> logged W' = logged W"
proof -
  let ?c = "(cells W ! b)\<lparr>p_state := SUCCEEDED, p_data := v\<rparr>"
  note r = lift_inv_pending[OF inv b p]
  from lift_inv_settle[OF inv d b p, of ?c "[VStr ''SUCCEEDED'', v, p_error (cells W ! b)]"]
  obtain W' where W': "exec (liftA_finish (pure_call g) (length bs) (VPromise a) x (Suc x)
                          [VStr ''SUCCEEDED'', v, p_error (cells W ! b)]) (set_cell b ?c W) =
                       Some (Done VUndefined, W')"
    and rest: "lift_inv g fb bs a x bs W'" "cells W' ! b = ?c"
      "\<forall>b'. b' \<noteq> b \<and> b' \<noteq> a \<longrightarrow> cells W' ! b' = cells W ! b'"
      "length (cells W') = length (cells W)" "logged W' = logged W"
    by auto
  have "exec (NotifySuccess (VPromise b) v) W = Some (Done VUndefined, W')"
    using exec_NotifySuccess_call_all[OF r(1) p, of v] r(2,4) W' by simp
  with rest show ?thesis by blast
qed

lemma lift_inv_reject:
  assumes inv: "lift_inv g fb bs a x bs W" and d: "distinct bs"
    and b: "b \<in> set bs" and p: "p_state (cells W ! b) = PENDING"
  shows "\<exists>W'. exec (NotifyFailure (VPromise b) e) W = Some (Done VUndefined, W') \<and>
            lift_inv g fb bs a x bs W' \<and>
            cells W' ! b = (cells W ! b)\<lparr>p_state := FAILED, p_error := e\<rparr> \<and>
            (\<forall>b'. b' \<noteq> b \<and> b' \<noteq> a \<longrightarrow> cells W' ! b' = cells W ! b') \<and>
            length (cells W') = length (cells W) \<and> logged W' = logged W"
proof -
  let ?c = "(cells W ! b)\<lparr>p_state := FAILED, p_error := e\<rparr>"
  note r = lift_inv_pending[OF inv b p]
  from lift_inv_settle[OF inv d b p, of ?c "[VStr ''FAILED'', p_data (cells W ! b), e]"]
  obtain W' where W': "exec (liftA_finish (pure_call g) (length bs) (VPromise a) x (Suc x)
                          [VStr ''FAILED'', p_data (cells W ! b), e]) (set_cell b ?c W) =
                       Some (Done VUndefined, W')"
    and rest: "lift_inv g fb bs a x bs W'" "cells W' ! b = ?c"
      "\<forall>b'. b' \<noteq> b \<and> b' \<noteq> a \<longrightarrow> cells W' ! b' = cells W ! b'"
      "length (cells W') = length (cells W)" "logged W' = logged W"
    by auto
  have "exec (NotifyFailure (VPromise b) e) W = Some (Done VUndefined, W')"
    using exec_NotifyFailure_call_all[OF r(1) p, of e] r(3,4) W' by simp
  with rest show ?thesis by blast
qed

lemma same_result_refl [simp]: "same_result c c"
  by (simp add: same_result_def)

lemma same_result_trans: "same_result c c' \<Longrightarrow> same_result c' c'' \<Longrightarrow> same_result c c''"
  by (simp add: same_result_def)

lemma settled_in_same: "same_result (cells W' ! b) (cells W ! b) \<Longrightarrow> settled_in W' b = settled_in W b"
  by (simp add: settled_in_def same_result_def)

lemma data_of_same: "same_result (cells W' ! b) (cells W ! b) \<Longrightarrow> data_of fb W' b = data_of fb W b"
  by (simp add: data_of_def same_result_def split: pstate.split)

lemma liftA_loop_step:
  assumes bs: "bs = pre @ b # rest" and d: "distinct bs"
    and inv: "lift_inv g fb bs a x pre W"
  shows "\<exists>W'. exec (Bind (ReadVar (Suc x)) (\<lambda>arr.
                     Bind (WriteVar (Suc x) (push arr (VPromise b))) (\<lambda>_.
                     Finish (VPromise b) (liftA_finish (pure_call g) (length bs) (VPromise a) x (Suc x))))) W =
              Some (Done (VPromise b), W') \<and>
            lift_inv g fb bs a x (pre @ [b]) W' \<and>
            (\<forall>b'. b' \<noteq> a \<longrightarrow> same_result (cells W' ! b') (cells W ! b')) \<and>
            length (cells W') = length (cells W) \<and> logged W' = logged W"
proof -
  let ?cb = "liftA_finish (pure_call g) (length bs) (VPromise a) x (Suc x)"
  let ?k = "int (length (filter (settled_in W) pre))"
  have pre_ne: "pre \<noteq> bs" using bs by simp
  have bpre: "b \<notin> set pre" using bs d by simp
  have bin: "b \<in> set bs" using bs by simp
  from inv pre_ne have a: "a < length (cells W)" and x: "Suc x < length (vars W)"
    and k: "vars W ! x = VNum ?k" and tv: "vars W ! Suc x = VArray (map VPromise pre)"
    and inp: "\<forall>b \<in> set bs. b < length (cells W) \<and> b \<noteq> a \<and>
         p_options (cells W ! b) = Some (pure_call (fb b)) \<and>
         (p_state (cells W ! b) = PENDING \<longrightarrow>
            successListeners (cells W ! b) = [] \<and> failureListeners (cells W ! b) = [] \<and>
            finishListeners (cells W ! b) = (if b \<in> set pre then [?cb] else []))"
    and fresh: "cells W ! a = new_cell None"
    by (simp_all add: lift_inv_def)
  from inp bin have bl: "b < length (cells W)" and ba: "b \<noteq> a" by auto
  let ?W1 = "W\<lparr>vars := (vars W)[Suc x := VArray (map VPromise (pre @ [b]))]\<rparr>"
  have step1: "exec (Bind (ReadVar (Suc x)) (\<lambda>arr. Bind (WriteVar (Suc x) (push arr (VPromise b))) (\<lambda>_.
                     Finish (VPromise b) ?cb))) W = exec (Finish (VPromise b) ?cb) ?W1"
    using x tv by (simp add: arg_def push_def del: exec_Finish)
  have W1: "cells ?W1 = cells W" "logged ?W1 = logged W" "vars ?W1 ! x = VNum ?k"
    "vars ?W1 ! Suc x = VArray (map VPromise (pre @ [b]))" "Suc x < length (vars ?W1)"
    using x k by simp_all
  show ?thesis
  proof (cases "p_state (cells W ! b) = PENDING")
    case True
    with inp bin bpre have reg: "successListeners (cells W ! b) = []" "failureListeners (cells W ! b) = []"
      "finishListeners (cells W ! b) = []" by auto
    define W' where "W' = set_cell b ((cells W ! b)\<lparr>finishListeners := [?cb]\<rparr>) ?W1"
    have e: "exec (Finish (VPromise b) ?cb) ?W1 = Some (Done (VPromise b), W')"
      using bl True reg by (simp add: W'_def)
    have Wb: "cells W' ! b = (cells W ! b)\<lparr>finishListeners := [?cb]\<rparr>"
      using bl by (simp add: W'_def set_cell_def)
    have Wo: "cells W' ! b' = cells W ! b'" if "b' \<noteq> b" for b'
      using that by (simp add: W'_def set_cell_def)
    have Wl: "length (cells W') = length (cells W)" by (simp add: W'_def set_cell_def)
    have Wv: "vars W' = vars ?W1" "logged W' = logged W" by (simp_all add: W'_def set_cell_def)
    have sr: "same_result (cells W' ! b') (cells W ! b')" for b'
      using Wb Wo[of b'] by (cases "b' = b") (simp_all add: same_result_def)
    have fW: "filter (settled_in W') (pre @ [b]) = filter (settled_in W) pre"
    proof -
      have "filter (settled_in W') pre = filter (settled_in W) pre"
        using settled_in_same[OF sr] by (intro filter_cong) auto
      moreover have "\<not> settled_in W' b" using Wb True by (simp add: settled_in_def)
      ultimately show ?thesis by simp
    qed
    have Wi: "\<forall>b' \<in> set bs. b' < length (cells W') \<and> b' \<noteq> a \<and>
         p_options (cells W' ! b') = Some (pure_call (fb b')) \<and>
         (p_state (cells W' ! b') = PENDING \<longrightarrow>
            successListeners (cells W' ! b') = [] \<and> failureListeners (cells W' ! b') = [] \<and>
            finishListeners (cells W' ! b') = (if b' \<in> set (pre @ [b]) then [?cb] else []))"
    proof
      fix b' assume m: "b' \<in> set bs"
      note i = inp[rule_format, OF m]
      show "b' < length (cells W') \<and> b' \<noteq> a \<and>
         p_options (cells W' ! b') = Some (pure_call (fb b')) \<and>
         (p_state (cells W' ! b') = PENDING \<longrightarrow>
            successListeners (cells W' ! b') = [] \<and> failureListeners (cells W' ! b') = [] \<and>
            finishListeners (cells W' ! b') = (if b' \<in> set (pre @ [b]) then [?cb] else []))"
      proof (cases "b' = b")
        case True
        then show ?thesis using i Wb Wl reg by simp
      next
        case False
        then show ?thesis using i Wo[of b'] Wl by simp
      qed
    qed
    have nall: "\<not> (pre @ [b] = bs \<and> (\<forall>b' \<in> set bs. settled_in W' b'))"
      using bin Wb True by (auto simp: settled_in_def)
    have Wa: "cells W' ! a = new_cell None" using Wo[of a] ba fresh by simp
    have "lift_inv g fb bs a x (pre @ [b]) W'"
      unfolding lift_inv_def if_not_P[OF nall] fW
      using a Wl Wv W1 Wi Wa by simp
    then show ?thesis using step1 e sr Wl Wv by auto
  next
    case False
    then have sb: "settled_in W b" by (simp add: settled_in_def)
    have cnt: "length (filter (settled_in W) (pre @ [b])) = Suc (length (filter (settled_in W) pre))"
      using sb by simp
    have kle: "length (filter (settled_in W) pre) \<le> length pre" by (rule length_filter_le)
    have N: "length bs = length pre + 1 + length rest" using bs by simp
    have last: "rest = [] \<and> (\<forall>b' \<in> set pre. settled_in W b')" if "?k + 1 = int (length bs)"
    proof -
      from that N kle have "length (filter (settled_in W) pre) = length pre \<and> length rest = 0" by arith
      then show ?thesis by (simp add: count_all)
    qed
    have all: "\<forall>b' \<in> set (pre @ [b]). b' < length (cells ?W1) \<and> settled_in ?W1 b' \<and>
                p_options (cells ?W1 ! b') = Some (pure_call (fb b'))"
      if "?k + 1 = int (length bs)"
    proof
      fix b' assume m: "b' \<in> set (pre @ [b])"
      then have "b' \<in> set bs" using bs by auto
      note i = inp[rule_format, OF this]
      have "settled_in W b'" using m last[OF that] sb by auto
      then show "b' < length (cells ?W1) \<and> settled_in ?W1 b' \<and>
                p_options (cells ?W1 ! b') = Some (pure_call (fb b'))"
        using i by simp
    qed
    let ?V1 = "?W1\<lparr>vars := (vars ?W1)[x := VNum (?k + 1)]\<rparr>"
    define W' where "W' = (if ?k + 1 = int (length bs)
             then resolved_success a (g (map (data_of fb ?W1) (pre @ [b]))) ?V1 else ?V1)"
    have a1: "a < length (cells ?W1)" and fresh1: "cells ?W1 ! a = new_cell None"
      using a fresh by simp_all
    have fire: "exec (?cb args) ?W1 = Some (Done VUndefined, W')" for args
      unfolding W'_def
      by (rule liftA_finish_fires[where cur = "pre @ [b]" and fb = fb, OF W1(5) W1(3) W1(4) a1 fresh1 all])
    have e: "exec (Finish (VPromise b) ?cb) ?W1 = Some (Done (VPromise b), W')"
      using bl False fire by (simp del: listener_args.simps)
    have Wc: "cells W' ! b' = cells W ! b'" if "b' \<noteq> a" for b'
      using that by (simp add: W'_def resolved_success_def set_cell_def)
    have Wl: "length (cells W') = length (cells W)" by (simp add: W'_def)
    have Wlog: "logged W' = logged W" by (simp add: W'_def resolved_success_def set_cell_def)
    have Wv: "vars W' = (vars W)[Suc x := VArray (map VPromise (pre @ [b])), x := VNum (?k + 1)]"
      by (simp add: W'_def resolved_success_def set_cell_def)
    have WaT: "cells W' ! a = (new_cell None)\<lparr>p_state := SUCCEEDED, p_data := g (map (data_of fb W) (pre @ [b]))\<rparr>"
      if "?k + 1 = int (length bs)"
      using that a fresh by (simp add: W'_def resolved_success_def set_cell_def)
    have WaF: "cells W' ! a = new_cell None" if "?k + 1 \<noteq> int (length bs)"
      using that fresh by (simp add: W'_def)
    have sr: "same_result (cells W' ! b') (cells W ! b')" if "b' \<noteq> a" for b'
      using Wc[OF that] by simp
    have srb: "same_result (cells W' ! b') (cells W ! b')" if "b' \<in> set bs" for b'
      using sr inp that by auto
    have fW: "filter (settled_in W') (pre @ [b]) = filter (settled_in W) (pre @ [b])"
      using settled_in_same[OF srb] bs by (intro filter_cong) auto
    have mW: "map (data_of fb W') bs = map (data_of fb W) bs"
      using data_of_same[OF srb] by (intro map_cong) auto
    have Wk: "vars W' ! x = VNum (int (length (filter (settled_in W') (pre @ [b]))))"
      unfolding fW using Wv x cnt by simp
    have Wt: "vars W' ! Suc x = VArray (map VPromise (pre @ [b]))" using Wv x by simp
    have Wi: "\<forall>b' \<in> set bs. b' < length (cells W') \<and> b' \<noteq> a \<and>
         p_options (cells W' ! b') = Some (pure_call (fb b')) \<and>
         (p_state (cells W' ! b') = PENDING \<longrightarrow>
            successListeners (cells W' ! b') = [] \<and> failureListeners (cells W' ! b') = [] \<and>
            finishListeners (cells W' ! b') = (if b' \<in> set (pre @ [b]) then [?cb] else []))"
    proof
      fix b' assume m: "b' \<in> set bs"
      note i = inp[rule_format, OF m]
      have c: "cells W' ! b' = cells W ! b'" using Wc i by simp
      show "b' < length (cells W') \<and> b' \<noteq> a \<and>
         p_options (cells W' ! b') = Some (pure_call (fb b')) \<and>
         (p_state (cells W' ! b') = PENDING \<longrightarrow>
            successListeners (cells W' ! b') = [] \<and> failureListeners (cells W' ! b') = [] \<and>
            finishListeners (cells W' ! b') = (if b' \<in> set (pre @ [b]) then [?cb] else []))"
      proof (cases "b' = b")
        case True
        then show ?thesis using i c Wl False by simp
      next
        case False
        then show ?thesis using i c Wl by simp
      qed
    qed
    have aW: "(pre @ [b] = bs \<and> (\<forall>b' \<in> set bs. settled_in W' b')) \<longleftrightarrow> ?k + 1 = int (length bs)"
    proof
      assume h: "pre @ [b] = bs \<and> (\<forall>b' \<in> set bs. settled_in W' b')"
      then have "\<forall>b' \<in> set (pre @ [b]). settled_in W' b'" by simp
      then have "length (filter (settled_in W') (pre @ [b])) = length (pre @ [b])"
        by (simp only: count_all)
      then show "?k + 1 = int (length bs)" using fW cnt h by simp
    next
      assume h: "?k + 1 = int (length bs)"
      from last[OF h] bs have pb: "pre @ [b] = bs" by simp
      have "\<forall>b' \<in> set bs. settled_in W b'" using last[OF h] sb pb by auto
      then have "\<forall>b' \<in> set bs. settled_in W' b'" using settled_in_same[OF srb] by simp
      with pb show "pre @ [b] = bs \<and> (\<forall>b' \<in> set bs. settled_in W' b')" by simp
    qed
    have Wa: "cells W' ! a =
        (if pre @ [b] = bs \<and> (\<forall>b' \<in> set bs. settled_in W' b')
         then (new_cell None)\<lparr>p_state := SUCCEEDED, p_data := g (map (data_of fb W') bs)\<rparr>
         else new_cell None)"
    proof (cases "?k + 1 = int (length bs)")
      case True
      from last[OF True] bs have pb: "pre @ [b] = bs" by simp
      have all': "pre @ [b] = bs \<and> (\<forall>b' \<in> set bs. settled_in W' b')" using aW True by blast
      have gm: "g (map (data_of fb W') bs) = g (map (data_of fb W) (pre @ [b]))"
        unfolding pb using mW by (rule arg_cong)
      show ?thesis unfolding if_P[OF all'] gm by (rule WaT[OF True])
    next
      case False
      have all': "\<not> (pre @ [b] = bs \<and> (\<forall>b' \<in> set bs. settled_in W' b'))" using aW False by blast
      show ?thesis unfolding if_not_P[OF all'] by (rule WaF[OF False])
    qed
    have "lift_inv g fb bs a x (pre @ [b]) W'"
      unfolding lift_inv_def using a x Wl Wv Wk Wt Wi Wa by simp
    then show ?thesis using step1 e sr Wl Wlog by auto
  qed
qed

lemma liftA_loop_unfold:
  "exec (liftA_loop f N r x t (a # rest)) W =
   and_then (exec (Bind (ReadVar t) (\<lambda>arr. Bind (WriteVar t (push arr a)) (\<lambda>_.
                     Finish a (liftA_finish f N r x t)))) W)
            (\<lambda>_ w'. exec (liftA_loop f N r x t rest) w')"
  by (simp add: and_then_def del: exec_Finish)

lemma liftA_loop_inv:
  assumes "bs = pre @ rest" and "distinct bs" and "lift_inv g fb bs a x pre W"
  shows "\<exists>W'. exec (liftA_loop (pure_call g) (length bs) (VPromise a) x (Suc x) (map VPromise rest)) W =
              Some (Done VUndefined, W') \<and>
            lift_inv g fb bs a x bs W' \<and>
            (\<forall>b'. b' \<noteq> a \<longrightarrow> same_result (cells W' ! b') (cells W ! b')) \<and>
            length (cells W') = length (cells W) \<and> logged W' = logged W"
  using assms
proof (induction rest arbitrary: pre W)
  case Nil
  then show ?case by simp
next
  case (Cons b rest)
  from Cons.prems have bs: "bs = (pre @ [b]) @ rest" by simp
  from liftA_loop_step[OF Cons.prems(1) Cons.prems(2) Cons.prems(3)]
  obtain W1 where e1: "exec (Bind (ReadVar (Suc x)) (\<lambda>arr.
                     Bind (WriteVar (Suc x) (push arr (VPromise b))) (\<lambda>_.
                     Finish (VPromise b) (liftA_finish (pure_call g) (length bs) (VPromise a) x (Suc x))))) W =
              Some (Done (VPromise b), W1)"
    and i1: "lift_inv g fb bs a x (pre @ [b]) W1"
    and s1: "\<forall>b'. b' \<noteq> a \<longrightarrow> same_result (cells W1 ! b') (cells W ! b')"
    and l1: "length (cells W1) = length (cells W)" "logged W1 = logged W"
    by blast
  from Cons.IH[OF bs Cons.prems(2) i1]
  obtain W' where e2: "exec (liftA_loop (pure_call g) (length bs) (VPromise a) x (Suc x) (map VPromise rest)) W1 =
              Some (Done VUndefined, W')"
    and i2: "lift_inv g fb bs a x bs W'"
    and s2: "\<forall>b'. b' \<noteq> a \<longrightarrow> same_result (cells W' ! b') (cells W1 ! b')"
    and l2: "length (cells W') = length (cells W1)" "logged W' = logged W1"
    by blast
  have "exec (liftA_loop (pure_call g) (length bs) (VPromise a) x (Suc x) (map VPromise (b # rest))) W =
        Some (Done VUndefined, W')"
    unfolding list.map liftA_loop_unfold e1 using e2 by (simp add: and_then_def)
  moreover have "\<forall>b'. b' \<noteq> a \<longrightarrow> same_result (cells W' ! b') (cells W ! b')"
    using s1 s2 same_result_trans by blast
  ultimately show ?case using i2 l1 l2 by auto
qed

lemma liftA_build:
  assumes ne: "bs \<noteq> []" and d: "distinct bs"
    and inp: "\<forall>b \<in> set bs. b < length (cells w) \<and>
                p_options (cells w ! b) = Some (pure_call (fb b)) \<and>
                (p_state (cells w ! b) = PENDING \<longrightarrow> registries (cells w ! b) = ([], [], []))"
  shows "\<exists>W. exec (liftA (pure_call g) (map VPromise bs)) w = Some (Done (VPromise (length (cells w))), W) \<and>
            lift_inv g fb bs (length (cells w)) (length (vars w)) bs W \<and>
            (\<forall>b' < length (cells w). same_result (cells W ! b') (cells w ! b')) \<and>
            length (cells W) = Suc (length (cells w)) \<and> logged W = logged w"
proof -
  let ?a = "length (cells w)" and ?x = "length (vars w)"
  define W0 where "W0 = w\<lparr>cells := cells w @ [new_cell None], vars := vars w @ [VNum 0, VArray []]\<rparr>"
  have c0: "cells W0 ! b = cells w ! b" if "b < ?a" for b
    using that by (simp add: W0_def nth_append)
  have i0: "lift_inv g fb bs ?a ?x [] W0"
    unfolding lift_inv_def using ne inp c0
    by (auto simp: W0_def nth_append registries_def)
  from liftA_loop_inv[where pre = "[]" and rest = bs, OF _ d i0]
  obtain W where e: "exec (liftA_loop (pure_call g) (length bs) (VPromise ?a) ?x (Suc ?x) (map VPromise bs)) W0 =
              Some (Done VUndefined, W)"
    and i: "lift_inv g fb bs ?a ?x bs W"
    and s: "\<forall>b'. b' \<noteq> ?a \<longrightarrow> same_result (cells W ! b') (cells W0 ! b')"
    and l: "length (cells W) = length (cells W0)" "logged W = logged W0"
    by auto
  have "exec (liftA (pure_call g) (map VPromise bs)) w = Some (Done (VPromise ?a), W)"
    using e by (simp add: liftA_def promise_def W0_def and_then_def)
  moreover have "\<forall>b' < ?a. same_result (cells W ! b') (cells w ! b')"
  proof (intro allI impI)
    fix b' assume b: "b' < ?a"
    then have "same_result (cells W ! b') (cells W0 ! b')" using s by simp
    then show "same_result (cells W ! b') (cells w ! b')" using c0[OF b] by simp
  qed
  moreover have "length (cells W) = Suc ?a" "logged W = logged w"
    using l by (simp_all add: W0_def)
  ultimately show ?thesis using i by blast
qed

lemma same_result_settle:
  "same_result c c' \<Longrightarrow> same_result (settle evs b c) (settle evs b c')"
proof (induction evs arbitrary: c c')
  case Nil
  then show ?case by simp
next
  case (Cons ev evs)
  show ?case
  proof (cases ev)
    case (Resolve t v)
    have "same_result (if t = b then c\<lparr>p_state := SUCCEEDED, p_data := v\<rparr> else c)
                      (if t = b then c'\<lparr>p_state := SUCCEEDED, p_data := v\<rparr> else c')"
      using Cons.prems by (simp add: same_result_def)
    from Cons.IH[OF this] show ?thesis using Resolve by simp
  next
    case (Reject t e)
    have "same_result (if t = b then c\<lparr>p_state := FAILED, p_error := e\<rparr> else c)
                      (if t = b then c'\<lparr>p_state := FAILED, p_error := e\<rparr> else c')"
      using Cons.prems by (simp add: same_result_def)
    from Cons.IH[OF this] show ?thesis using Reject by simp
  qed
qed

lemma lift_inv_fire:
  assumes "lift_inv g fb bs a x bs W" and "distinct bs"
    and "distinct (map target evs)"
    and "\<forall>ev \<in> set evs. target ev \<in> set bs \<and> p_state (cells W ! target ev) = PENDING"
  shows "\<exists>W'. exec (fire evs) W = Some (Done VUndefined, W') \<and>
            lift_inv g fb bs a x bs W' \<and>
            (\<forall>b \<in> set bs. cells W' ! b = settle evs b (cells W ! b)) \<and>
            length (cells W') = length (cells W) \<and> logged W' = logged W"
  using assms
proof (induction evs arbitrary: W)
  case Nil
  then show ?case by simp
next
  case (Cons ev evs)
  have tin: "target ev \<in> set bs" and tp: "p_state (cells W ! target ev) = PENDING"
    using Cons.prems(4) by simp_all
  have dt: "distinct (map target evs)" and tn: "\<forall>ev' \<in> set evs. target ev' \<noteq> target ev"
    using Cons.prems(3) by (auto simp: image_iff)
  have na: "\<forall>b \<in> set bs. b \<noteq> a" using Cons.prems(1) by (simp add: lift_inv_def)
  have step: "\<exists>W1. exec (fire (ev # evs)) W = and_then (Some (Done VUndefined, W1)) (\<lambda>_ w'. exec (fire evs) w') \<and>
            lift_inv g fb bs a x bs W1 \<and>
            (\<forall>b \<in> set bs. cells W1 ! b = settle [ev] b (cells W ! b)) \<and>
            length (cells W1) = length (cells W) \<and> logged W1 = logged W"
  proof (cases ev)
    case (Resolve t v)
    with tin tp have t: "t \<in> set bs" "p_state (cells W ! t) = PENDING" by simp_all
    from lift_inv_resolve[OF Cons.prems(1) Cons.prems(2) t, of v]
    obtain W1 where e: "exec (NotifySuccess (VPromise t) v) W = Some (Done VUndefined, W1)"
      and r: "lift_inv g fb bs a x bs W1"
        "cells W1 ! t = (cells W ! t)\<lparr>p_state := SUCCEEDED, p_data := v\<rparr>"
        "\<forall>b'. b' \<noteq> t \<and> b' \<noteq> a \<longrightarrow> cells W1 ! b' = cells W ! b'"
        "length (cells W1) = length (cells W)" "logged W1 = logged W"
      by blast
    have "exec (fire (ev # evs)) W = and_then (Some (Done VUndefined, W1)) (\<lambda>_ w'. exec (fire evs) w')"
      unfolding Resolve fire.simps exec_Bind e ..
    moreover have "\<forall>b \<in> set bs. cells W1 ! b = settle [ev] b (cells W ! b)"
      using r(2,3) na Resolve by auto
    ultimately show ?thesis using r by blast
  next
    case (Reject t e')
    with tin tp have t: "t \<in> set bs" "p_state (cells W ! t) = PENDING" by simp_all
    from lift_inv_reject[OF Cons.prems(1) Cons.prems(2) t, of e']
    obtain W1 where e: "exec (NotifyFailure (VPromise t) e') W = Some (Done VUndefined, W1)"
      and r: "lift_inv g fb bs a x bs W1"
        "cells W1 ! t = (cells W ! t)\<lparr>p_state := FAILED, p_error := e'\<rparr>"
        "\<forall>b'. b' \<noteq> t \<and> b' \<noteq> a \<longrightarrow> cells W1 ! b' = cells W ! b'"
        "length (cells W1) = length (cells W)" "logged W1 = logged W"
      by blast
    have "exec (fire (ev # evs)) W = and_then (Some (Done VUndefined, W1)) (\<lambda>_ w'. exec (fire evs) w')"
      unfolding Reject fire.simps exec_Bind e ..
    moreover have "\<forall>b \<in> set bs. cells W1 ! b = settle [ev] b (cells W ! b)"
      using r(2,3) na Reject by auto
    ultimately show ?thesis using r by blast
  qed
  then obtain W1 where e1: "exec (fire (ev # evs)) W = and_then (Some (Done VUndefined, W1)) (\<lambda>_ w'. exec (fire evs) w')"
    and i1: "lift_inv g fb bs a x bs W1"
    and c1: "\<forall>b \<in> set bs. cells W1 ! b = settle [ev] b (cells W ! b)"
    and l1: "length (cells W1) = length (cells W)" "logged W1 = logged W"
    by blast
  have p1: "\<forall>ev' \<in> set evs. target ev' \<in> set bs \<and> p_state (cells W1 ! target ev') = PENDING"
  proof
    fix ev' assume m: "ev' \<in> set evs"
    then have in': "target ev' \<in> set bs" and p': "p_state (cells W ! target ev') = PENDING"
      and ne: "target ev' \<noteq> target ev"
      using Cons.prems(4) tn by auto
    have "cells W1 ! target ev' = cells W ! target ev'"
      using c1 in' ne by (cases ev) auto
    then show "target ev' \<in> set bs \<and> p_state (cells W1 ! target ev') = PENDING"
      using in' p' by simp
  qed
  from Cons.IH[OF i1 Cons.prems(2) dt p1]
  obtain W' where e2: "exec (fire evs) W1 = Some (Done VUndefined, W')"
    and i2: "lift_inv g fb bs a x bs W'"
    and c2: "\<forall>b \<in> set bs. cells W' ! b = settle evs b (cells W1 ! b)"
    and l2: "length (cells W') = length (cells W1)" "logged W' = logged W1"
    by blast
  have "exec (fire (ev # evs)) W = Some (Done VUndefined, W')"
    unfolding e1 using e2 by (simp add: and_then_def)
  moreover have "\<forall>b \<in> set bs. cells W' ! b = settle (ev # evs) b (cells W ! b)"
    using c1 c2 by (cases ev) auto
  ultimately show ?case using i2 l1 l2 by auto
qed



lemmas nested_defs = nested_cells_def settled_def new_cell_def set_cell_def

section \<open>Registries only grow\<close>

lemma mutates_grow:
  assumes "mutates w w'" and "a < length (cells w)"
  shows "\<exists>ss fs gs. successListeners (cells w' ! a) = successListeners (cells w ! a) @ ss \<and>
                    failureListeners (cells w' ! a) = failureListeners (cells w ! a) @ fs \<and>
                    finishListeners (cells w' ! a) = finishListeners (cells w ! a) @ gs"
  using assms by (induction rule: mutates.induct) (auto simp: set_cell_def nth_append nth_list_update)

lemma reach_grow:
  assumes "mutates\<^sup>*\<^sup>* w w'" and "a < length (cells w)"
  shows "\<exists>ss fs gs. successListeners (cells w' ! a) = successListeners (cells w ! a) @ ss \<and>
                    failureListeners (cells w' ! a) = failureListeners (cells w ! a) @ fs \<and>
                    finishListeners (cells w' ! a) = finishListeners (cells w ! a) @ gs"
  using assms
proof (induction rule: rtranclp_induct)
  case base
  then show ?case by simp
next
  case (step y z)
  have ay: "a < length (cells y)" using reach_settled[OF step.hyps(1) step.prems] by simp
  from step.IH[OF step.prems] mutates_grow[OF step.hyps(2) ay] show ?case by auto
qed

lemma run_grow:
  assumes "a < length (cells w)"
  shows "\<exists>ss fs gs. successListeners (cells (snd (run n p w)) ! a) = successListeners (cells w ! a) @ ss \<and>
                    failureListeners (cells (snd (run n p w)) ! a) = failureListeners (cells w ! a) @ fs \<and>
                    finishListeners (cells (snd (run n p w)) ! a) = finishListeners (cells w ! a) @ gs"
  using reach_grow[OF _ assms, of "snd (run n p w)"] run_notify_mutates[of n] by blast

section \<open>What holds once a run has had enough fuel\<close>

lemma exec_run_ge:
  assumes "exec p w = Some x"
  shows "\<exists>k. \<forall>n \<ge> k. run n p w = x"
proof -
  from assms obtain k where k: "run k p w = x" "fst x \<noteq> OutOfFuel" using exec_iff_run by blast
  then have "fin (run k p w)" by (simp add: fin_def)
  from settles_le[OF settles_run this] k(1) show ?thesis by auto
qed

lemma kept_run:
  assumes "kept Q" and "Q w"
  shows "Q (snd (run n p w))"
proof -
  have "mutates\<^sup>*\<^sup>* w (snd (run n p w))" using run_notify_mutates[of n] by blast
  with assms show ?thesis unfolding kept_def by blast
qed

lemma kept_notify:
  assumes "kept Q" and "Q w"
  shows "Q (snd (notify n ch a i v w))"
proof -
  have "mutates\<^sup>*\<^sup>* w (snd (notify n ch a i v w))" using run_notify_mutates[of n] by blast
  with assms show ?thesis unfolding kept_def by blast
qed

lemma kept_succeeded_with: "kept (succeeded_with r v)"
  unfolding kept_def succeeded_with_def
proof (intro allI impI)
  fix w w' assume m: "mutates\<^sup>*\<^sup>* w w'"
    and q: "r < length (cells w) \<and> p_state (cells w ! r) = SUCCEEDED \<and> p_data (cells w ! r) = v"
  from reach_settled[OF m, of r] q
  show "r < length (cells w') \<and> p_state (cells w' ! r) = SUCCEEDED \<and> p_data (cells w' ! r) = v" by simp
qed

lemma kept_failed_with: "kept (failed_with r e)"
  unfolding kept_def failed_with_def
proof (intro allI impI)
  fix w w' assume m: "mutates\<^sup>*\<^sup>* w w'"
    and q: "r < length (cells w) \<and> p_state (cells w ! r) = FAILED \<and> p_error (cells w ! r) = e"
  from reach_settled[OF m, of r] q
  show "r < length (cells w') \<and> p_state (cells w' ! r) = FAILED \<and> p_error (cells w' ! r) = e" by simp
qed

lemma at_last_kept: "kept Q \<Longrightarrow> Q w \<Longrightarrow> at_last p w Q"
  unfolding at_last_def using kept_run by blast

lemma at_last_notify_kept: "kept Q \<Longrightarrow> Q w \<Longrightarrow> at_last_notify ch a i v w Q"
  unfolding at_last_notify_def using kept_notify by blast

lemma at_last_Bind:
  assumes "exec p w = Some (Done v, w1)" and "at_last (k v) w1 Q"
  shows "at_last (Bind p k) w Q"
proof -
  from exec_run_ge[OF assms(1)] obtain k1 where k1: "\<forall>n \<ge> k1. run n p w = (Done v, w1)" by blast
  from assms(2) obtain k2 where k2: "\<forall>n \<ge> k2. Q (snd (run n (k v) w1))" by (auto simp: at_last_def)
  have "Q (snd (run n (Bind p k) w))" if "n \<ge> Suc (max k1 k2)" for n
  proof -
    from that obtain m where m: "n = Suc m" "m \<ge> k1" "m \<ge> k2" by (cases n) auto
    then show ?thesis using k1 k2 by simp
  qed
  then show ?thesis unfolding at_last_def by blast
qed

lemma at_last_Bind_first:
  assumes "at_last p w Q" and "kept Q"
  shows "at_last (Bind p k) w Q"
proof -
  from assms(1) obtain k1 where k1: "\<forall>n \<ge> k1. Q (snd (run n p w))" by (auto simp: at_last_def)
  have "Q (snd (run n (Bind p k) w))" if "n \<ge> Suc k1" for n
  proof -
    from that obtain m where m: "n = Suc m" "m \<ge> k1" by (cases n) auto
    obtain r w1 where x: "run m p w = (r, w1)" by (cases "run m p w")
    with k1 m have q: "Q w1" by auto
    show ?thesis
    proof (cases r)
      case (Done u)
      with x m kept_run[OF assms(2) q, of m "k u"] show ?thesis by simp
    qed (use x m q in simp_all)
  qed
  then show ?thesis unfolding at_last_def by blast
qed

lemma at_last_NotifySuccess_now:
  assumes "r < length (cells w)" and "p_state (cells w ! r) = PENDING"
  shows "at_last (NotifySuccess (VPromise r) v) w (succeeded_with r v)"
proof -
  have c: "cell_of w (VPromise r) = Some r" using assms(1) by simp
  have "succeeded_with r v (snd (run n (NotifySuccess (VPromise r) v) w))" if "n \<ge> 1" for n
  proof -
    from that obtain m where m: "n = Suc m" by (cases n) auto
    show ?thesis
      unfolding m succeeded_with_def
      using resolved_after_NotifySuccess[OF c assms(2), of m v] run_settled(1)[OF assms(1), of "Suc m" "NotifySuccess (VPromise r) v"]
      by simp
  qed
  then show ?thesis unfolding at_last_def by blast
qed

lemma at_last_NotifyFailure_now:
  assumes "r < length (cells w)" and "p_state (cells w ! r) = PENDING"
  shows "at_last (NotifyFailure (VPromise r) e) w (failed_with r e)"
proof -
  have c: "cell_of w (VPromise r) = Some r" using assms(1) by simp
  have "failed_with r e (snd (run n (NotifyFailure (VPromise r) e) w))" if "n \<ge> 1" for n
  proof -
    from that obtain m where m: "n = Suc m" by (cases n) auto
    show ?thesis
      unfolding m failed_with_def
      using resolved_after_NotifyFailure[OF c assms(2), of m e] run_settled(1)[OF assms(1), of "Suc m" "NotifyFailure (VPromise r) e"]
      by simp
  qed
  then show ?thesis unfolding at_last_def by blast
qed

lemma exec_notify_run_ge:
  assumes "exec_notify ch a i v w = Some x"
  shows "\<exists>k. \<forall>n \<ge> k. notify n ch a i v w = x"
proof -
  from assms obtain k where k: "notify k ch a i v w = x" "fin x"
    unfolding exec_notify_def using limit_Some[of "\<lambda>n. notify n ch a i v w" x] by blast
  then have "fin (notify k ch a i v w)" by simp
  from settles_le[OF settles_notify this] k(1) show ?thesis by auto
qed

lemma at_last_notify_here:
  assumes a: "a < length (cells w)" and i: "i < length (listeners ch (cells w ! a))"
    and c: "at_last ((listeners ch (cells w ! a) ! i) (listener_args ch v (cells w ! a))) w Q"
    and k: "kept Q"
  shows "at_last_notify ch a i v w Q"
proof -
  let ?p = "(listeners ch (cells w ! a) ! i) (listener_args ch v (cells w ! a))"
  from c obtain k1 where k1: "\<forall>n \<ge> k1. Q (snd (run n ?p w))" by (auto simp: at_last_def)
  have "Q (snd (notify n ch a i v w))" if "n \<ge> Suc k1" for n
  proof -
    from that obtain m where m: "n = Suc m" "m \<ge> k1" by (cases n) auto
    obtain r w1 where x: "run m ?p w = (r, w1)" by (cases "run m ?p w")
    with k1 m have q: "Q w1" by auto
    have u: "notify (Suc m) ch a i v w =
             (case run m ?p w of (Done u, w') \<Rightarrow> notify m ch a (Suc i) v w' | r \<Rightarrow> r)"
      using a i by (subst notify.simps) simp
    show ?thesis
    proof (cases r)
      case (Done u')
      with x m u kept_notify[OF k q, of m ch a "Suc i" v] show ?thesis by simp
    qed (use x m u q in simp_all)
  qed
  then show ?thesis unfolding at_last_notify_def by blast
qed

lemma at_last_notify_skip:
  assumes a: "a < length (cells w)" and i: "i < length (listeners ch (cells w ! a))"
    and e: "exec ((listeners ch (cells w ! a) ! i) (listener_args ch v (cells w ! a))) w = Some (Done u, w')"
    and c: "at_last_notify ch a (Suc i) v w' Q"
  shows "at_last_notify ch a i v w Q"
proof -
  let ?p = "(listeners ch (cells w ! a) ! i) (listener_args ch v (cells w ! a))"
  from exec_run_ge[OF e] obtain k1 where k1: "\<forall>n \<ge> k1. run n ?p w = (Done u, w')" by blast
  from c obtain k2 where k2: "\<forall>n \<ge> k2. Q (snd (notify n ch a (Suc i) v w'))"
    by (auto simp: at_last_notify_def)
  have "Q (snd (notify n ch a i v w))" if "n \<ge> Suc (max k1 k2)" for n
  proof -
    from that obtain m where m: "n = Suc m" "m \<ge> k1" "m \<ge> k2" by (cases n) auto
    have u: "notify (Suc m) ch a i v w =
             (case run m ?p w of (Done u, w') \<Rightarrow> notify m ch a (Suc i) v w' | r \<Rightarrow> r)"
      using a i by (subst notify.simps) simp
    show ?thesis using m k1 k2 u by simp
  qed
  then show ?thesis unfolding at_last_notify_def by blast
qed

lemma exec_call_all_Cons_Done:
  assumes "exec (call_all (l # Ls) args) w = Some (Done u, w2)"
  shows "\<exists>u1 w1. exec (l args) w = Some (Done u1, w1) \<and> exec (call_all Ls args) w1 = Some (Done u, w2)"
  using assms by (auto simp: and_then_def split: option.splits prod.splits outcome.splits)

lemma at_last_notify_prefix:
  assumes c: "at_last (cb args) w2 Q" and k: "kept Q"
    and a: "a < length (cells w)" and t: "p_state (cells w ! a) \<noteq> PENDING"
    and ar: "listener_args ch v (cells w ! a) = args"
    and ls: "listeners ch (cells w ! a) = Pre @ Ls @ cb # Ls'"
    and h: "exec (call_all Ls args) w = Some (Done u, w2)"
  shows "at_last_notify ch a (length Pre) v w Q"
  using a t ar ls h
proof (induction Ls arbitrary: Pre w u)
  case Nil
  then have w2: "w2 = w" by simp
  have i: "length Pre < length (listeners ch (cells w ! a))" using Nil.prems(4) by simp
  have n: "listeners ch (cells w ! a) ! length Pre = cb" using Nil.prems(4) by simp
  show ?case
    by (rule at_last_notify_here[OF Nil.prems(1) i _ k]) (use n c w2 Nil.prems(3) in simp)
next
  case (Cons l Ls)
  from exec_call_all_Cons_Done[OF Cons.prems(5)]
  obtain u1 w1 where e1: "exec (l args) w = Some (Done u1, w1)"
    and e2: "exec (call_all Ls args) w1 = Some (Done u, w2)" by blast
  from exec_settled(1,3)[OF e1 Cons.prems(1)] Cons.prems(2)
  have w1: "a < length (cells w1)" "cells w1 ! a = cells w ! a" by simp_all
  have ls1: "listeners ch (cells w1 ! a) = (Pre @ [l]) @ Ls @ cb # Ls'"
    using Cons.prems(4) w1 by simp
  have t1: "p_state (cells w1 ! a) \<noteq> PENDING" using w1 Cons.prems(2) by simp
  have ar1: "listener_args ch v (cells w1 ! a) = args" using Cons.prems(3) w1 by simp
  from Cons.IH[OF w1(1) t1 ar1 ls1 e2]
  have n: "at_last_notify ch a (Suc (length Pre)) v w1 Q" by simp
  have i: "length Pre < length (listeners ch (cells w ! a))" using Cons.prems(4) by simp
  have l: "listeners ch (cells w ! a) ! length Pre = l" using Cons.prems(4) by simp
  show ?case
    by (rule at_last_notify_skip[OF Cons.prems(1) i _ n]) (use l e1 Cons.prems(3) in simp)
qed

lemma at_last_NotifySuccess_via:
  assumes t: "cell_of w t = Some a" and p: "p_state (cells w ! a) = PENDING"
    and ls: "successListeners (cells w ! a) = Ls @ cb # Ls'"
    and h: "exec (call_all Ls [v]) (resolved_success a v w) = Some (Done u, w2)"
    and c: "at_last (cb [v]) w2 Q" and k: "kept Q"
  shows "at_last (NotifySuccess t v) w Q"
proof -
  let ?w1 = "resolved_success a v w"
  have a: "a < length (cells w)" using t cell_of_Some by blast
  have a1: "a < length (cells ?w1)" "p_state (cells ?w1 ! a) \<noteq> PENDING"
    "listener_args SuccessCh v (cells ?w1 ! a) = [v]"
    "listeners SuccessCh (cells ?w1 ! a) = [] @ Ls @ cb # Ls'"
    using a ls by (simp_all add: resolved_success_def set_cell_def)
  from at_last_notify_prefix[OF c k a1 h]
  obtain k1 where k1: "\<forall>n \<ge> k1. Q (snd (notify n SuccessCh a 0 v ?w1))"
    by (auto simp: at_last_notify_def)
  have "Q (snd (run n (NotifySuccess t v) w))" if "n \<ge> Suc k1" for n
  proof -
    from that obtain m where m: "n = Suc m" "m \<ge> k1" by (cases n) auto
    obtain r w1 where x: "notify m SuccessCh a 0 v ?w1 = (r, w1)" by (cases "notify m SuccessCh a 0 v ?w1")
    with k1 m have q: "Q w1" by auto
    have u: "run (Suc m) (NotifySuccess t v) w =
             (case notify m SuccessCh a 0 v ?w1 of (Done u, w') \<Rightarrow> notify m FinishCh a 0 v w' | r \<Rightarrow> r)"
      using t p by (simp add: resolved_success_def)
    show ?thesis
    proof (cases r)
      case (Done u')
      with x m u kept_notify[OF k q, of m FinishCh a 0 v] show ?thesis by simp
    qed (use x m u q in simp_all)
  qed
  then show ?thesis unfolding at_last_def by blast
qed

lemma at_last_NotifyFailure_via:
  assumes t: "cell_of w t = Some a" and p: "p_state (cells w ! a) = PENDING"
    and ls: "failureListeners (cells w ! a) = Ls @ cb # Ls'"
    and h: "exec (call_all Ls [e]) (resolved_failure a e w) = Some (Done u, w2)"
    and c: "at_last (cb [e]) w2 Q" and k: "kept Q"
  shows "at_last (NotifyFailure t e) w Q"
proof -
  let ?w1 = "resolved_failure a e w"
  have a: "a < length (cells w)" using t cell_of_Some by blast
  have a1: "a < length (cells ?w1)" "p_state (cells ?w1 ! a) \<noteq> PENDING"
    "listener_args FailureCh e (cells ?w1 ! a) = [e]"
    "listeners FailureCh (cells ?w1 ! a) = [] @ Ls @ cb # Ls'"
    using a ls by (simp_all add: resolved_failure_def set_cell_def)
  from at_last_notify_prefix[OF c k a1 h]
  obtain k1 where k1: "\<forall>n \<ge> k1. Q (snd (notify n FailureCh a 0 e ?w1))"
    by (auto simp: at_last_notify_def)
  have "Q (snd (run n (NotifyFailure t e) w))" if "n \<ge> Suc k1" for n
  proof -
    from that obtain m where m: "n = Suc m" "m \<ge> k1" by (cases n) auto
    obtain r w1 where x: "notify m FailureCh a 0 e ?w1 = (r, w1)" by (cases "notify m FailureCh a 0 e ?w1")
    with k1 m have q: "Q w1" by auto
    have u: "run (Suc m) (NotifyFailure t e) w =
             (case notify m FailureCh a 0 e ?w1 of (Done u, w') \<Rightarrow> notify m FinishCh a 0 e w' | r \<Rightarrow> r)"
      using t p by (simp add: resolved_failure_def)
    show ?thesis
    proof (cases r)
      case (Done u')
      with x m u kept_notify[OF k q, of m FinishCh a 0 e] show ?thesis by simp
    qed (use x m u q in simp_all)
  qed
  then show ?thesis unfolding at_last_def by blast
qed

text \<open>A callback called at once, by a registration on a terminal cell.\<close>

lemma at_last_Succeed_now:
  assumes "cell_of w t = Some a" and "p_state (cells w ! a) = SUCCEEDED"
    and "at_last (cb [p_data (cells w ! a)]) w Q"
  shows "at_last (Succeed t cb) w Q"
proof -
  from assms(3) obtain k1 where k1: "\<forall>n \<ge> k1. Q (snd (run n (cb [p_data (cells w ! a)]) w))"
    by (auto simp: at_last_def)
  have "Q (snd (run n (Succeed t cb) w))" if "n \<ge> Suc k1" for n
  proof -
    from that obtain m where m: "n = Suc m" "m \<ge> k1" by (cases n) auto
    obtain r w1 where x: "run m (cb [p_data (cells w ! a)]) w = (r, w1)"
      by (cases "run m (cb [p_data (cells w ! a)]) w")
    with k1 m have q: "Q w1" by auto
    show ?thesis using m x q assms(1,2) by (cases r) simp_all
  qed
  then show ?thesis unfolding at_last_def by blast
qed

lemma at_last_Fail_now:
  assumes "cell_of w t = Some a" and "p_state (cells w ! a) = FAILED"
    and "at_last (cb [p_error (cells w ! a)]) w Q"
  shows "at_last (Fail t cb) w Q"
proof -
  from assms(3) obtain k1 where k1: "\<forall>n \<ge> k1. Q (snd (run n (cb [p_error (cells w ! a)]) w))"
    by (auto simp: at_last_def)
  have "Q (snd (run n (Fail t cb) w))" if "n \<ge> Suc k1" for n
  proof -
    from that obtain m where m: "n = Suc m" "m \<ge> k1" by (cases n) auto
    obtain r w1 where x: "run m (cb [p_error (cells w ! a)]) w = (r, w1)"
      by (cases "run m (cb [p_error (cells w ! a)]) w")
    with k1 m have q: "Q w1" by auto
    show ?thesis using m x q assms(1,2) by (cases r) simp_all
  qed
  then show ?thesis unfolding at_last_def by blast
qed

section \<open>\<^verbatim>\<open>fmap\<close> and the listeners around its closures\<close>

lemma at_last_fmap_success:
  assumes "exec (f [d]) w2 = Some (Done v, w3)" and "a < length (cells w3)"
    and "p_state (cells w3 ! a) = PENDING"
  shows "at_last (fmap_success f (VPromise a) (d # ds)) w2 (succeeded_with a v)"
  unfolding fmap_success_def
  by (rule at_last_Bind[where v = v and ?w1.0 = w3])
     (use assms in \<open>simp_all add: arg_def at_last_NotifySuccess_now\<close>)

lemma at_last_forward_success:
  assumes "a < length (cells w2)" and "p_state (cells w2 ! a) = PENDING"
  shows "at_last (forward_success (VPromise a) (d # ds)) w2 (succeeded_with a d)"
  unfolding forward_success_def using at_last_NotifySuccess_now[OF assms] by (simp add: arg_def)

lemma at_last_forward_failure:
  assumes "a < length (cells w2)" and "p_state (cells w2 ! a) = PENDING"
  shows "at_last (forward_failure (VPromise a) (e # es)) w2 (failed_with a e)"
  unfolding forward_failure_def using at_last_NotifyFailure_now[OF assms] by (simp add: arg_def)

lemma exec_promise [simp]:
  "exec (promise options) w = Some (Done (VPromise (length (cells w))), w\<lparr>cells := cells w @ [new_cell options]\<rparr>)"
  by (simp add: promise_def)




section \<open>\<^verbatim>\<open>join\<close> and the listeners around its closures\<close>

lemma at_last_exec: "exec p w = Some (x, w') \<Longrightarrow> Q w' \<Longrightarrow> at_last p w Q"
proof -
  assume e: "exec p w = Some (x, w')" and q: "Q w'"
  from exec_run_ge[OF e] obtain k where "\<forall>n \<ge> k. run n p w = (x, w')" by blast
  with q show ?thesis unfolding at_last_def by (intro exI[of _ k]) simp
qed

lemma kept_subscribed: "kept (subscribed a c)"
  unfolding kept_def subscribed_def
proof (intro allI impI)
  fix w w' assume m: "mutates\<^sup>*\<^sup>* w w'"
    and q: "c < length (cells w) \<and>
      (\<exists>Ls Ls'. successListeners (cells w ! c) = Ls @ forward_success (VPromise a) # Ls') \<and>
      (\<exists>Lf Lf'. failureListeners (cells w ! c) = Lf @ forward_failure (VPromise a) # Lf')"
  then have c: "c < length (cells w)" by simp
  from q obtain Ls Ls' Lf Lf' where l: "successListeners (cells w ! c) = Ls @ forward_success (VPromise a) # Ls'"
    "failureListeners (cells w ! c) = Lf @ forward_failure (VPromise a) # Lf'" by blast
  from reach_grow[OF m c] obtain ss fs where g: "successListeners (cells w' ! c) = successListeners (cells w ! c) @ ss"
    "failureListeners (cells w' ! c) = failureListeners (cells w ! c) @ fs" by blast
  have 1: "successListeners (cells w' ! c) = Ls @ forward_success (VPromise a) # (Ls' @ ss)"
    using g(1) l(1) by simp
  have 2: "failureListeners (cells w' ! c) = Lf @ forward_failure (VPromise a) # (Lf' @ fs)"
    using g(2) l(2) by simp
  show "c < length (cells w') \<and>
      (\<exists>Ls Ls'. successListeners (cells w' ! c) = Ls @ forward_success (VPromise a) # Ls') \<and>
      (\<exists>Lf Lf'. failureListeners (cells w' ! c) = Lf @ forward_failure (VPromise a) # Lf')"
    using reach_settled[OF m c] 1 2 by blast
qed

lemma at_last_join_outer_succeeded:
  assumes q: "cell_of w2 q = Some c" and s: "p_state (cells w2 ! c) = SUCCEEDED"
    and a: "a < length (cells w2)" and p: "p_state (cells w2 ! a) = PENDING"
  shows "at_last (join_outer (VPromise a) (q # qs)) w2 (succeeded_with a (p_data (cells w2 ! c)))"
proof -
  have 1: "at_last (forward_success (VPromise a) [p_data (cells w2 ! c)]) w2
             (succeeded_with a (p_data (cells w2 ! c)))"
    by (rule at_last_forward_success[OF a p])
  have 2: "at_last (Succeed q (forward_success (VPromise a))) w2 (succeeded_with a (p_data (cells w2 ! c)))"
    by (rule at_last_Succeed_now[where cb = "forward_success (VPromise a)", OF q s 1])
  show ?thesis
    unfolding join_outer_def using at_last_Bind_first[OF 2 kept_succeeded_with] by (simp add: arg_def)
qed

lemma at_last_join_outer_failed:
  assumes q: "cell_of w2 q = Some c" and s: "p_state (cells w2 ! c) = FAILED"
    and a: "a < length (cells w2)" and p: "p_state (cells w2 ! a) = PENDING"
  shows "at_last (join_outer (VPromise a) (q # qs)) w2 (failed_with a (p_error (cells w2 ! c)))"
proof -
  have 1: "at_last (forward_failure (VPromise a) [p_error (cells w2 ! c)]) w2
             (failed_with a (p_error (cells w2 ! c)))"
    by (rule at_last_forward_failure[OF a p])
  have 2: "at_last (Fail q (forward_failure (VPromise a))) w2 (failed_with a (p_error (cells w2 ! c)))"
    by (rule at_last_Fail_now[where cb = "forward_failure (VPromise a)", OF q s 1])
  have 3: "exec (Succeed q (forward_success (VPromise a))) w2 = Some (Done q, w2)"
    using q s by simp
  show ?thesis
    unfolding join_outer_def using at_last_Bind[OF 3, of "\<lambda>_. Fail q (forward_failure (VPromise a))", OF 2]
    by (simp add: arg_def)
qed

lemma at_last_join_outer_pending:
  assumes q: "cell_of w2 q = Some c" and s: "p_state (cells w2 ! c) = PENDING"
  shows "at_last (join_outer (VPromise a) (q # qs)) w2 (subscribed a c)"
proof -
  from q have c: "c < length (cells w2)" using cell_of_Some by blast
  have "subscribed a c (forwarded a c w2)"
    unfolding subscribed_def using forwarded_cell(2,7,8)[OF c, of a] c
    by (metis append_Nil2)
  with join_outer_pending[OF q s, of a qs] show ?thesis by (rule at_last_exec)
qed

text \<open>
  C6, as the claim states it, fails. A client registers a listener that throws on a
  PENDING outer cell, calls \<^verbatim>\<open>join\<close> on it and resolves the outer cell with a cell
  SUCCEEDED with "inner". The success loop of the outer cell stops at the throwing
  listener, before the closure of \<^verbatim>\<open>join\<close>: the outer cell is SUCCEEDED and the cell
  returned by \<^verbatim>\<open>join\<close> is still PENDING.
\<close>

theorem join_resolves_counterexample:
  "summary (exec join_after_thrower empty_world) =
     Some (Thrown (VStr ''oops''),
           [(SUCCEEDED, VPromise 2, VUndefined), (PENDING, VUndefined, VUndefined),
            (SUCCEEDED, VStr ''inner'', VUndefined)], [])"
  by (simp add: join_after_thrower_def join_def unit_def thrower_def empty_world_def summary_def
        new_cell_def set_cell_def exec_notify_unfold nth_append)

text \<open>
  C6, amended. \<^verbatim>\<open>join\<close> on a FAILED outer cell returns a cell FAILED with the same
  error, and looks at no inner cell. On an outer cell SUCCEEDED with an inner cell, the
  result is SUCCEEDED with the data of a SUCCEEDED inner cell, FAILED with the error of a
  FAILED one, and subscribed to a PENDING one. On a PENDING outer cell \<^verbatim>\<open>join\<close>
  registers its two closures after the listeners already there and returns the PENDING
  result. In every store that any run of any program reaches from there with the outer
  cell still PENDING, whatever has been registered on the outer cell or on the result
  meanwhile, the two closures are still in place after those earlier listeners, and

    \<^item> resolving the outer cell with failure and \<open>e\<close> ends with the result FAILED with
      \<open>e\<close>, provided the failure listeners registered on the outer cell before
      \<^verbatim>\<open>join\<close> return and the result is still PENDING when they have;
    \<^item> resolving the outer cell with success and the inner cell \<open>q\<close>, provided the success
      listeners registered on the outer cell before \<^verbatim>\<open>join\<close> return, ends with the
      result SUCCEEDED with the data of \<open>q\<close> if \<open>q\<close> is SUCCEEDED then, FAILED with the
      error of \<open>q\<close> if \<open>q\<close> is FAILED then (in both cases if the result is still
      PENDING), and subscribed to \<open>q\<close> if \<open>q\<close> is PENDING then.

  A result subscribed to a PENDING inner cell follows it: in any store, resolving the
  inner cell with success and \<open>d\<close> (with failure and \<open>e\<close>) ends with the result
  SUCCEEDED with \<open>d\<close> (FAILED with \<open>e\<close>), provided the listeners registered on the inner
  cell before the forwarding closure return and leave the result PENDING.
  \<^verbatim>\<open>join(unit(unit("inner")))\<close> is SUCCEEDED with "inner".
\<close>

theorem join_resolves:
  assumes "cell_of w tt = Some b"
  shows
  "(p_state (cells w ! b) = FAILED \<longrightarrow>
      exec (join tt) w =
        Some (Done (VPromise (length (cells w))),
              w\<lparr>cells := cells w @
                   [(new_cell None)\<lparr>p_state := FAILED, p_error := p_error (cells w ! b)\<rparr>]\<rparr>)) \<and>
   (p_state (cells w ! b) = SUCCEEDED \<longrightarrow>
      (\<forall>c. cell_of w (p_data (cells w ! b)) = Some c \<longrightarrow>
         (p_state (cells w ! c) = SUCCEEDED \<longrightarrow>
            exec (join tt) w =
              Some (Done (VPromise (length (cells w))),
                    resolved_success (length (cells w)) (p_data (cells w ! c))
                      (w\<lparr>cells := cells w @ [new_cell None]\<rparr>))) \<and>
         (p_state (cells w ! c) = FAILED \<longrightarrow>
            exec (join tt) w =
              Some (Done (VPromise (length (cells w))),
                    resolved_failure (length (cells w)) (p_error (cells w ! c))
                      (w\<lparr>cells := cells w @ [new_cell None]\<rparr>))) \<and>
         (p_state (cells w ! c) = PENDING \<longrightarrow>
            exec (join tt) w =
              Some (Done (VPromise (length (cells w))),
                    forwarded (length (cells w)) c (w\<lparr>cells := cells w @ [new_cell None]\<rparr>)) \<and>
            subscribed (length (cells w)) c
              (forwarded (length (cells w)) c (w\<lparr>cells := cells w @ [new_cell None]\<rparr>))))) \<and>
   (p_state (cells w ! b) = PENDING \<longrightarrow>
      exec (join tt) w = Some (Done (VPromise (length (cells w))), join_wired b w) \<and>
      (\<forall>n p. p_state (cells (snd (run n p (join_wired b w))) ! b) = PENDING \<longrightarrow>
         (\<exists>Ls'. successListeners (cells (snd (run n p (join_wired b w))) ! b) =
                  successListeners (cells w ! b) @ join_outer (VPromise (length (cells w))) # Ls') \<and>
         (\<exists>Lf'. failureListeners (cells (snd (run n p (join_wired b w))) ! b) =
                  failureListeners (cells w ! b) @ forward_failure (VPromise (length (cells w))) # Lf') \<and>
         (\<forall>e u w2.
            exec (call_all (failureListeners (cells w ! b)) [e])
              (resolved_failure b e (snd (run n p (join_wired b w)))) = Some (Done u, w2) \<and>
            p_state (cells w2 ! length (cells w)) = PENDING \<longrightarrow>
            at_last (NotifyFailure tt e) (snd (run n p (join_wired b w)))
              (failed_with (length (cells w)) e)) \<and>
         (\<forall>q c u w2.
            exec (call_all (successListeners (cells w ! b)) [q])
              (resolved_success b q (snd (run n p (join_wired b w)))) = Some (Done u, w2) \<and>
            cell_of w2 q = Some c \<longrightarrow>
            (p_state (cells w2 ! c) = SUCCEEDED \<and> p_state (cells w2 ! length (cells w)) = PENDING \<longrightarrow>
               at_last (NotifySuccess tt q) (snd (run n p (join_wired b w)))
                 (succeeded_with (length (cells w)) (p_data (cells w2 ! c)))) \<and>
            (p_state (cells w2 ! c) = FAILED \<and> p_state (cells w2 ! length (cells w)) = PENDING \<longrightarrow>
               at_last (NotifySuccess tt q) (snd (run n p (join_wired b w)))
                 (failed_with (length (cells w)) (p_error (cells w2 ! c)))) \<and>
            (p_state (cells w2 ! c) = PENDING \<longrightarrow>
               at_last (NotifySuccess tt q) (snd (run n p (join_wired b w)))
                 (subscribed (length (cells w)) c))))) \<and>
   (\<forall>W a c Ls Ls' d u w2.
      c < length (cells W) \<and> p_state (cells W ! c) = PENDING \<and>
      successListeners (cells W ! c) = Ls @ forward_success (VPromise a) # Ls' \<and>
      exec (call_all Ls [d]) (resolved_success c d W) = Some (Done u, w2) \<and>
      a < length (cells w2) \<and> p_state (cells w2 ! a) = PENDING \<longrightarrow>
      at_last (NotifySuccess (VPromise c) d) W (succeeded_with a d)) \<and>
   (\<forall>W a c Lf Lf' e u w2.
      c < length (cells W) \<and> p_state (cells W ! c) = PENDING \<and>
      failureListeners (cells W ! c) = Lf @ forward_failure (VPromise a) # Lf' \<and>
      exec (call_all Lf [e]) (resolved_failure c e W) = Some (Done u, w2) \<and>
      a < length (cells w2) \<and> p_state (cells w2 ! a) = PENDING \<longrightarrow>
      at_last (NotifyFailure (VPromise c) e) W (failed_with a e)) \<and>
   (\<forall>w0. exec (Bind (unit (VStr ''inner'')) (\<lambda>p. Bind (unit p) join)) w0 =
     Some (Done (VPromise (Suc (Suc (length (cells w0))))),
           w0\<lparr>cells := cells w0 @
                [(new_cell None)\<lparr>p_state := SUCCEEDED, p_data := VStr ''inner''\<rparr>,
                 (new_cell None)\<lparr>p_state := SUCCEEDED, p_data := VPromise (length (cells w0))\<rparr>,
                 (new_cell None)\<lparr>p_state := SUCCEEDED, p_data := VStr ''inner''\<rparr>]\<rparr>))"
proof -
  let ?a = "length (cells w)"
  let ?r = "VPromise ?a"
  let ?w1 = "w\<lparr>cells := cells w @ [new_cell None]\<rparr>"
  let ?wP = "join_wired b w"
  from assms have t: "tt = VPromise b" and b: "b < length (cells w)"
    using cell_of_Some by blast+
  have FA: "p_state (cells w ! b) = FAILED \<longrightarrow>
      exec (join tt) w =
        Some (Done ?r, w\<lparr>cells := cells w @
                   [(new_cell None)\<lparr>p_state := FAILED, p_error := p_error (cells w ! b)\<rparr>]\<rparr>)"
    using join_on_failed[OF assms] by blast
  have w1: "?a < length (cells ?w1)" "cells ?w1 ! ?a = new_cell None" by simp_all
  have SU: "p_state (cells w ! b) = SUCCEEDED \<longrightarrow>
      (\<forall>c. cell_of w (p_data (cells w ! b)) = Some c \<longrightarrow>
         (p_state (cells w ! c) = SUCCEEDED \<longrightarrow>
            exec (join tt) w = Some (Done ?r, resolved_success ?a (p_data (cells w ! c)) ?w1)) \<and>
         (p_state (cells w ! c) = FAILED \<longrightarrow>
            exec (join tt) w = Some (Done ?r, resolved_failure ?a (p_error (cells w ! c)) ?w1)) \<and>
         (p_state (cells w ! c) = PENDING \<longrightarrow>
            exec (join tt) w = Some (Done ?r, forwarded ?a c ?w1) \<and>
            subscribed ?a c (forwarded ?a c ?w1)))"
  proof (intro impI allI)
    fix c
    assume s: "p_state (cells w ! b) = SUCCEEDED" and q: "cell_of w (p_data (cells w ! b)) = Some c"
    let ?q = "p_data (cells w ! b)"
    from q have c: "c < length (cells w)" and qv: "?q = VPromise c" using cell_of_Some by blast+
    have q1: "cell_of ?w1 ?q = Some c" "cells ?w1 ! c = cells w ! c" "c < length (cells ?w1)"
      using c qv by (simp_all add: nth_append)
    note j = join_on_succeeded[OF assms s]
    have sub: "subscribed ?a c (forwarded ?a c ?w1)"
      unfolding subscribed_def using forwarded_cell(2,7,8)[OF q1(3), of ?a] q1(3)
      by (metis append_Nil2)
    show "(p_state (cells w ! c) = SUCCEEDED \<longrightarrow>
            exec (join tt) w = Some (Done ?r, resolved_success ?a (p_data (cells w ! c)) ?w1)) \<and>
         (p_state (cells w ! c) = FAILED \<longrightarrow>
            exec (join tt) w = Some (Done ?r, resolved_failure ?a (p_error (cells w ! c)) ?w1)) \<and>
         (p_state (cells w ! c) = PENDING \<longrightarrow>
            exec (join tt) w = Some (Done ?r, forwarded ?a c ?w1) \<and>
            subscribed ?a c (forwarded ?a c ?w1))"
      using j join_outer_succeeded[OF w1 q1(1), of "[]"] join_outer_failed[OF w1 q1(1), of "[]"]
        join_outer_pending[OF q1(1), of ?a "[]"] q1(2) sub
      by simp
  qed
  note wP = join_wired_cell[OF b]
  have P0: "exec (join tt) w = Some (Done ?r, ?wP)" if "p_state (cells w ! b) = PENDING"
    using join_on_pending[OF assms that] .
  have bP: "b < length (cells ?wP)" "?a < length (cells ?wP)"
    using wP(1,2) by (simp_all split: if_splits)
  have later:
    "(\<exists>Ls'. successListeners (cells (snd (run n p ?wP)) ! b) =
                  successListeners (cells w ! b) @ join_outer ?r # Ls') \<and>
     (\<exists>Lf'. failureListeners (cells (snd (run n p ?wP)) ! b) =
                  failureListeners (cells w ! b) @ forward_failure ?r # Lf') \<and>
     (\<forall>e u w2.
            exec (call_all (failureListeners (cells w ! b)) [e])
              (resolved_failure b e (snd (run n p ?wP))) = Some (Done u, w2) \<and>
            p_state (cells w2 ! ?a) = PENDING \<longrightarrow>
            at_last (NotifyFailure tt e) (snd (run n p ?wP)) (failed_with ?a e)) \<and>
     (\<forall>q c u w2.
            exec (call_all (successListeners (cells w ! b)) [q])
              (resolved_success b q (snd (run n p ?wP))) = Some (Done u, w2) \<and>
            cell_of w2 q = Some c \<longrightarrow>
            (p_state (cells w2 ! c) = SUCCEEDED \<and> p_state (cells w2 ! ?a) = PENDING \<longrightarrow>
               at_last (NotifySuccess tt q) (snd (run n p ?wP))
                 (succeeded_with ?a (p_data (cells w2 ! c)))) \<and>
            (p_state (cells w2 ! c) = FAILED \<and> p_state (cells w2 ! ?a) = PENDING \<longrightarrow>
               at_last (NotifySuccess tt q) (snd (run n p ?wP))
                 (failed_with ?a (p_error (cells w2 ! c)))) \<and>
            (p_state (cells w2 ! c) = PENDING \<longrightarrow>
               at_last (NotifySuccess tt q) (snd (run n p ?wP)) (subscribed ?a c)))"
    if pW: "p_state (cells (snd (run n p ?wP)) ! b) = PENDING" for n p
  proof -
    let ?W = "snd (run n p ?wP)"
    from run_grow[OF bP(1), of n p] wP(8,9)
    obtain ss fs where ss: "successListeners (cells ?W ! b) = successListeners (cells w ! b) @ join_outer ?r # ss"
      and fs: "failureListeners (cells ?W ! b) = failureListeners (cells w ! b) @ forward_failure ?r # fs"
      by auto
    have bW: "b < length (cells ?W)" "?a < length (cells ?W)"
      using run_settled(1)[OF bP(1), of n p] run_settled(1)[OF bP(2), of n p] by simp_all
    have tW: "cell_of ?W tt = Some b" using bW t by simp
    have 1: "at_last (NotifyFailure tt e) ?W (failed_with ?a e)"
      if h1: "exec (call_all (failureListeners (cells w ! b)) [e]) (resolved_failure b e ?W) = Some (Done u, w2)"
        and h3: "p_state (cells w2 ! ?a) = PENDING" for e u w2
    proof -
      have "?a < length (cells (resolved_failure b e ?W))" using bW by simp
      from exec_settled(1)[OF h1 this] have a2: "?a < length (cells w2)" .
      show ?thesis
        by (rule at_last_NotifyFailure_via[where cb = "forward_failure ?r", OF tW pW fs h1
              at_last_forward_failure[OF a2 h3] kept_failed_with])
    qed
    have 2: "(p_state (cells w2 ! c) = SUCCEEDED \<and> p_state (cells w2 ! ?a) = PENDING \<longrightarrow>
               at_last (NotifySuccess tt q) ?W (succeeded_with ?a (p_data (cells w2 ! c)))) \<and>
            (p_state (cells w2 ! c) = FAILED \<and> p_state (cells w2 ! ?a) = PENDING \<longrightarrow>
               at_last (NotifySuccess tt q) ?W (failed_with ?a (p_error (cells w2 ! c)))) \<and>
            (p_state (cells w2 ! c) = PENDING \<longrightarrow>
               at_last (NotifySuccess tt q) ?W (subscribed ?a c))"
      if h1: "exec (call_all (successListeners (cells w ! b)) [q]) (resolved_success b q ?W) = Some (Done u, w2)"
        and qc: "cell_of w2 q = Some c" for q c u w2
    proof -
      have "?a < length (cells (resolved_success b q ?W))" using bW by simp
      from exec_settled(1)[OF h1 this] have a2: "?a < length (cells w2)" .
      have A: "at_last (NotifySuccess tt q) ?W (succeeded_with ?a (p_data (cells w2 ! c)))"
        if "p_state (cells w2 ! c) = SUCCEEDED" "p_state (cells w2 ! ?a) = PENDING"
        by (rule at_last_NotifySuccess_via[where cb = "join_outer ?r", OF tW pW ss h1
              at_last_join_outer_succeeded[OF qc that(1) a2 that(2)] kept_succeeded_with])
      have B: "at_last (NotifySuccess tt q) ?W (failed_with ?a (p_error (cells w2 ! c)))"
        if "p_state (cells w2 ! c) = FAILED" "p_state (cells w2 ! ?a) = PENDING"
        by (rule at_last_NotifySuccess_via[where cb = "join_outer ?r", OF tW pW ss h1
              at_last_join_outer_failed[OF qc that(1) a2 that(2)] kept_failed_with])
      have C: "at_last (NotifySuccess tt q) ?W (subscribed ?a c)"
        if "p_state (cells w2 ! c) = PENDING"
        by (rule at_last_NotifySuccess_via[where cb = "join_outer ?r", OF tW pW ss h1
              at_last_join_outer_pending[OF qc that] kept_subscribed])
      show ?thesis using A B C by blast
    qed
    show ?thesis using ss fs 1 2 by blast
  qed
  have PE: "p_state (cells w ! b) = PENDING \<longrightarrow>
      exec (join tt) w = Some (Done ?r, ?wP) \<and>
      (\<forall>n p. p_state (cells (snd (run n p ?wP)) ! b) = PENDING \<longrightarrow>
         (\<exists>Ls'. successListeners (cells (snd (run n p ?wP)) ! b) =
                  successListeners (cells w ! b) @ join_outer ?r # Ls') \<and>
         (\<exists>Lf'. failureListeners (cells (snd (run n p ?wP)) ! b) =
                  failureListeners (cells w ! b) @ forward_failure ?r # Lf') \<and>
         (\<forall>e u w2.
            exec (call_all (failureListeners (cells w ! b)) [e])
              (resolved_failure b e (snd (run n p ?wP))) = Some (Done u, w2) \<and>
            p_state (cells w2 ! ?a) = PENDING \<longrightarrow>
            at_last (NotifyFailure tt e) (snd (run n p ?wP)) (failed_with ?a e)) \<and>
         (\<forall>q c u w2.
            exec (call_all (successListeners (cells w ! b)) [q])
              (resolved_success b q (snd (run n p ?wP))) = Some (Done u, w2) \<and>
            cell_of w2 q = Some c \<longrightarrow>
            (p_state (cells w2 ! c) = SUCCEEDED \<and> p_state (cells w2 ! ?a) = PENDING \<longrightarrow>
               at_last (NotifySuccess tt q) (snd (run n p ?wP))
                 (succeeded_with ?a (p_data (cells w2 ! c)))) \<and>
            (p_state (cells w2 ! c) = FAILED \<and> p_state (cells w2 ! ?a) = PENDING \<longrightarrow>
               at_last (NotifySuccess tt q) (snd (run n p ?wP))
                 (failed_with ?a (p_error (cells w2 ! c)))) \<and>
            (p_state (cells w2 ! c) = PENDING \<longrightarrow>
               at_last (NotifySuccess tt q) (snd (run n p ?wP)) (subscribed ?a c))))"
    using P0 later by blast
  have D1: "at_last (NotifySuccess (VPromise c) d) W (succeeded_with a d)"
    if h: "c < length (cells W) \<and> p_state (cells W ! c) = PENDING \<and>
      successListeners (cells W ! c) = Ls @ forward_success (VPromise a) # Ls' \<and>
      exec (call_all Ls [d]) (resolved_success c d W) = Some (Done u, w2) \<and>
      a < length (cells w2) \<and> p_state (cells w2 ! a) = PENDING" for W a c Ls Ls' d u w2
  proof -
    from h have cW: "cell_of W (VPromise c) = Some c" by simp
    from h show ?thesis
      by (intro at_last_NotifySuccess_via[where cb = "forward_success (VPromise a)" and Ls = Ls
            and Ls' = Ls' and ?w2.0 = w2, OF cW _ _ _ at_last_forward_success kept_succeeded_with])
         simp_all
  qed
  have D2: "at_last (NotifyFailure (VPromise c) e) W (failed_with a e)"
    if h: "c < length (cells W) \<and> p_state (cells W ! c) = PENDING \<and>
      failureListeners (cells W ! c) = Lf @ forward_failure (VPromise a) # Lf' \<and>
      exec (call_all Lf [e]) (resolved_failure c e W) = Some (Done u, w2) \<and>
      a < length (cells w2) \<and> p_state (cells w2 ! a) = PENDING" for W a c Lf Lf' e u w2
  proof -
    from h have cW: "cell_of W (VPromise c) = Some c" by simp
    from h show ?thesis
      by (intro at_last_NotifyFailure_via[where cb = "forward_failure (VPromise a)" and Ls = Lf
            and Ls' = Lf' and ?w2.0 = w2, OF cW _ _ _ at_last_forward_failure kept_failed_with])
         simp_all
  qed
  have DD1: "\<forall>W a c Ls Ls' d u w2.
      c < length (cells W) \<and> p_state (cells W ! c) = PENDING \<and>
      successListeners (cells W ! c) = Ls @ forward_success (VPromise a) # Ls' \<and>
      exec (call_all Ls [d]) (resolved_success c d W) = Some (Done u, w2) \<and>
      a < length (cells w2) \<and> p_state (cells w2 ! a) = PENDING \<longrightarrow>
      at_last (NotifySuccess (VPromise c) d) W (succeeded_with a d)"
    using D1 by blast
  have DD2: "\<forall>W a c Lf Lf' e u w2.
      c < length (cells W) \<and> p_state (cells W ! c) = PENDING \<and>
      failureListeners (cells W ! c) = Lf @ forward_failure (VPromise a) # Lf' \<and>
      exec (call_all Lf [e]) (resolved_failure c e W) = Some (Done u, w2) \<and>
      a < length (cells w2) \<and> p_state (cells w2 ! a) = PENDING \<longrightarrow>
      at_last (NotifyFailure (VPromise c) e) W (failed_with a e)"
    using D2 by blast
  have C: "\<forall>w0. exec (Bind (unit (VStr ''inner'')) (\<lambda>p. Bind (unit p) join)) w0 =
     Some (Done (VPromise (Suc (Suc (length (cells w0))))),
           w0\<lparr>cells := cells w0 @
                [(new_cell None)\<lparr>p_state := SUCCEEDED, p_data := VStr ''inner''\<rparr>,
                 (new_cell None)\<lparr>p_state := SUCCEEDED, p_data := VPromise (length (cells w0))\<rparr>,
                 (new_cell None)\<lparr>p_state := SUCCEEDED, p_data := VStr ''inner''\<rparr>]\<rparr>)"
    by (simp add: unit_def join_def promise_def join_outer_def forward_success_def arg_def
          new_cell_def set_cell_def exec_notify_unfold nth_append list_update_append)
  show ?thesis by (intro conjI FA SU PE DD1 DD2 C)
qed

text \<open>
  On the store where \<^verbatim>\<open>join\<close> has been called on a PENDING outer cell and a consumer
  has then been registered on the result: resolving the outer cell with a cell SUCCEEDED
  with 1 brings the result to SUCCEEDED with 1, with a cell FAILED with "boom" to FAILED
  with "boom", with a PENDING cell to a subscription on that cell, and resolving the
  outer cell with the failure "outer" brings the result to FAILED with "outer".
\<close>

theorem join_resolves_witness:
  "at_last (NotifySuccess (VPromise 7) (VPromise 1)) join_then_consumer (succeeded_with 8 (VNum 1)) \<and>
   at_last (NotifySuccess (VPromise 7) (VPromise 2)) join_then_consumer (failed_with 8 (VStr ''boom'')) \<and>
   at_last (NotifySuccess (VPromise 7) (VPromise 0)) join_then_consumer (subscribed 8 0) \<and>
   at_last (NotifyFailure (VPromise 7) (VStr ''outer'')) join_then_consumer (failed_with 8 (VStr ''outer'')) \<and>
   length (successListeners (cells join_then_consumer ! 8)) = 1"
proof -
  have c7: "cell_of nested_cells (VPromise 7) = Some 7" and p7: "p_state (cells nested_cells ! 7) = PENDING"
    and l: "length (cells nested_cells) = 8"
    and r7: "successListeners (cells nested_cells ! 7) = []" "failureListeners (cells nested_cells ! 7) = []"
    by (simp_all add: nested_cells_def new_cell_def)
  have W: "join_then_consumer =
           set_cell 8 ((new_cell None)\<lparr>successListeners := [log_call ''c'']\<rparr>)
             (join_wired 7 nested_cells)"
    by (simp add: join_then_consumer_def join_wired_def nested_cells_def new_cell_def set_cell_def
          eval_nat_numeral)
  have cs: "length (cells join_then_consumer) = 9"
    "p_state (cells join_then_consumer ! 7) = PENDING"
    "p_state (cells join_then_consumer ! 8) = PENDING"
    "length (successListeners (cells join_then_consumer ! 8)) = 1"
    "p_state (cells join_then_consumer ! 1) = SUCCEEDED" "p_data (cells join_then_consumer ! 1) = VNum 1"
    "p_state (cells join_then_consumer ! 2) = FAILED" "p_error (cells join_then_consumer ! 2) = VStr ''boom''"
    "p_state (cells join_then_consumer ! 0) = PENDING"
    unfolding W by (simp_all add: join_wired_def nested_cells_def settled_def new_cell_def set_cell_def)
  note T = join_resolves[OF c7, unfolded l]
  note P = T[THEN conjunct2, THEN conjunct2, THEN conjunct1, rule_format, OF p7, THEN conjunct2,
             rule_format, of 5 "Succeed (VPromise 8) (log_call ''c'')",
             folded join_then_consumer_def, OF cs(2)]
  have s1: "exec (call_all (successListeners (cells nested_cells ! 7)) [q])
              (resolved_success 7 q join_then_consumer) =
            Some (Done VUndefined, resolved_success 7 q join_then_consumer)" for q
    unfolding r7 by simp
  have f1: "exec (call_all (failureListeners (cells nested_cells ! 7)) [e])
              (resolved_failure 7 e join_then_consumer) =
            Some (Done VUndefined, resolved_failure 7 e join_then_consumer)" for e
    unfolding r7 by simp
  have rs: "cell_of (resolved_success 7 q join_then_consumer) (VPromise c) = (if c < 9 then Some c else None)"
    "c \<noteq> 7 \<Longrightarrow> cells (resolved_success 7 q join_then_consumer) ! c = cells join_then_consumer ! c"
    "c \<noteq> 7 \<Longrightarrow> cells (resolved_failure 7 q join_then_consumer) ! c = cells join_then_consumer ! c"
    for q c
    using cs(1) by (simp_all add: resolved_success_def resolved_failure_def set_cell_def)
  note S = P[THEN conjunct2, THEN conjunct2, THEN conjunct2, rule_format]
  have A: "at_last (NotifySuccess (VPromise 7) (VPromise 1)) join_then_consumer (succeeded_with 8 (VNum 1))"
    using S[of "VPromise 1" _ _ 1, OF conjI[OF s1], THEN conjunct1] rs cs by simp
  have B: "at_last (NotifySuccess (VPromise 7) (VPromise 2)) join_then_consumer (failed_with 8 (VStr ''boom''))"
    using S[of "VPromise 2" _ _ 2, OF conjI[OF s1], THEN conjunct2, THEN conjunct1] rs cs by simp
  have C: "at_last (NotifySuccess (VPromise 7) (VPromise 0)) join_then_consumer (subscribed 8 0)"
    using S[of "VPromise 0" _ _ 0, OF conjI[OF s1], THEN conjunct2, THEN conjunct2] rs cs by simp
  have D: "at_last (NotifyFailure (VPromise 7) (VStr ''outer'')) join_then_consumer (failed_with 8 (VStr ''outer''))"
    using P[THEN conjunct2, THEN conjunct2, THEN conjunct1, rule_format, OF conjI[OF f1]] rs cs by simp
  show ?thesis using A B C D cs(4) by simp
qed

section \<open>The registries are read, never emptied\<close>



section \<open>A cell that nothing resolves\<close>

lemma seq_pending:
  assumes "still_pending r (snd x)"
    and "\<And>v w'. x = (Done v, w') \<Longrightarrow> still_pending r w' \<Longrightarrow> still_pending r (snd (f v w'))"
  shows "still_pending r (snd (seq x f))"
proof (cases x)
  case (Pair o1 w1)
  show ?thesis
  proof (cases o1)
    case (Done v)
    with Pair assms(1) assms(2)[of v w1] show ?thesis by simp
  qed (use Pair assms(1) in simp_all)
qed

lemma still_pending_set_cell:
  assumes "still_pending r w" and "a \<noteq> r \<or> p_state c = PENDING"
  shows "still_pending r (set_cell a c w)"
  using assms by (cases "a = r") (auto simp: still_pending_def set_cell_def nth_list_update)

lemma avoids_pending:
  "(\<forall>p w. avoids r n p w \<longrightarrow> still_pending r w \<longrightarrow> still_pending r (snd (run n p w))) \<and>
   (\<forall>ch a i v w. avoids_loop r n ch a i v w \<longrightarrow> still_pending r w \<longrightarrow>
      still_pending r (snd (notify n ch a i v w)))"
proof (induction n)
  case 0
  show ?case by simp
next
  case (Suc n)
  have R: "\<And>p w. avoids r n p w \<Longrightarrow> still_pending r w \<Longrightarrow> still_pending r (snd (run n p w))"
    using Suc by blast
  have N: "\<And>ch a i v w. avoids_loop r n ch a i v w \<Longrightarrow> still_pending r w \<Longrightarrow>
             still_pending r (snd (notify n ch a i v w))"
    using Suc by blast
  have 1: "still_pending r (snd (run (Suc n) p w))"
    if av: "avoids r (Suc n) p w" and sp: "still_pending r w" for p w
  proof (cases p)
    case (Return v)
    then show ?thesis using sp by simp
  next
    case (Throw e)
    then show ?thesis using sp by simp
  next
    case (Bind q k)
    from av Bind have a1: "avoids r n q w"
      and a2: "\<And>v w'. run n q w = (Done v, w') \<Longrightarrow> avoids r n (k v) w'"
      by auto
    show ?thesis unfolding Bind run.simps
      by (rule seq_pending) (auto intro: R a1 a2 sp)
  next
    case (NewPromise options)
    then show ?thesis using sp by (simp add: still_pending_def nth_append)
  next
    case (GetState t)
    then show ?thesis using sp by (simp split: option.splits)
  next
    case (GetData t)
    then show ?thesis using sp av R by (auto split: option.splits pstate.splits)
  next
    case (Succeed t cb)
    show ?thesis
    proof (cases "cell_of w t")
      case None then show ?thesis using Succeed sp by simp
    next
      case (Some a)
      show ?thesis
      proof (cases "p_state (cells w ! a)")
        case PENDING
        with Some Succeed sp show ?thesis by (simp add: still_pending_set_cell)
      next
        case SUCCEEDED
        from av Succeed Some SUCCEEDED have "avoids r n (cb [p_data (cells w ! a)]) w" by simp
        from R[OF this sp] show ?thesis
          unfolding Succeed run.simps Some option.case SUCCEEDED pstate.case
          by (intro seq_pending) simp_all
      next
        case FAILED
        with Some Succeed sp show ?thesis by simp
      qed
    qed
  next
    case (Fail t cb)
    show ?thesis
    proof (cases "cell_of w t")
      case None then show ?thesis using Fail sp by simp
    next
      case (Some a)
      show ?thesis
      proof (cases "p_state (cells w ! a)")
        case PENDING
        with Some Fail sp show ?thesis by (simp add: still_pending_set_cell)
      next
        case FAILED
        from av Fail Some FAILED have "avoids r n (cb [p_error (cells w ! a)]) w" by simp
        from R[OF this sp] show ?thesis
          unfolding Fail run.simps Some option.case FAILED pstate.case
          by (intro seq_pending) simp_all
      next
        case SUCCEEDED
        with Some Fail sp show ?thesis by simp
      qed
    qed
  next
    case (Finish t cb)
    show ?thesis
    proof (cases "cell_of w t")
      case None then show ?thesis using Finish sp by simp
    next
      case (Some a)
      show ?thesis
      proof (cases "p_state (cells w ! a) = PENDING")
        case True
        with Some Finish sp show ?thesis by (simp add: still_pending_set_cell)
      next
        case False
        from av Finish Some False
        have "avoids r n (cb (listener_args FinishCh VUndefined (cells w ! a))) w" by simp
        from R[OF this sp] show ?thesis
          unfolding Finish run.simps Some option.case if_not_P[OF False]
          by (intro seq_pending) simp_all
      qed
    qed
  next
    case (NotifySuccess t v)
    show ?thesis
    proof (cases "cell_of w t")
      case None then show ?thesis using NotifySuccess sp by simp
    next
      case (Some a)
      show ?thesis
      proof (cases "p_state (cells w ! a) = PENDING")
        case True
        let ?w1 = "set_cell a ((cells w ! a)\<lparr>p_state := SUCCEEDED, p_data := v\<rparr>) w"
        from av NotifySuccess Some True have ar: "a \<noteq> r"
          and l1: "avoids_loop r n SuccessCh a 0 v ?w1"
          and l2: "\<And>u w'. notify n SuccessCh a 0 v ?w1 = (Done u, w') \<Longrightarrow> avoids_loop r n FinishCh a 0 v w'"
          by auto
        have s1: "still_pending r ?w1" using sp ar by (simp add: still_pending_set_cell)
        have "still_pending r (snd (seq (notify n SuccessCh a 0 v ?w1) (\<lambda>u w'. notify n FinishCh a 0 v w')))"
          by (rule seq_pending) (auto intro: N l1 l2 s1)
        then show ?thesis unfolding NotifySuccess run.simps Some option.case using True by simp
      next
        case False
        with Some NotifySuccess sp show ?thesis by simp
      qed
    qed
  next
    case (NotifyFailure t v)
    show ?thesis
    proof (cases "cell_of w t")
      case None then show ?thesis using NotifyFailure sp by simp
    next
      case (Some a)
      show ?thesis
      proof (cases "p_state (cells w ! a) = PENDING")
        case True
        let ?w1 = "set_cell a ((cells w ! a)\<lparr>p_state := FAILED, p_error := v\<rparr>) w"
        from av NotifyFailure Some True have ar: "a \<noteq> r"
          and l1: "avoids_loop r n FailureCh a 0 v ?w1"
          and l2: "\<And>u w'. notify n FailureCh a 0 v ?w1 = (Done u, w') \<Longrightarrow> avoids_loop r n FinishCh a 0 v w'"
          by auto
        have s1: "still_pending r ?w1" using sp ar by (simp add: still_pending_set_cell)
        have "still_pending r (snd (seq (notify n FailureCh a 0 v ?w1) (\<lambda>u w'. notify n FinishCh a 0 v w')))"
          by (rule seq_pending) (auto intro: N l1 l2 s1)
        then show ?thesis unfolding NotifyFailure run.simps Some option.case using True by simp
      next
        case False
        with Some NotifyFailure sp show ?thesis by simp
      qed
    qed
  next
    case (NewVar v k)
    have s: "still_pending r (w\<lparr>vars := vars w @ [v]\<rparr>)" using sp by (simp add: still_pending_def)
    from av NewVar have "avoids r n (k (length (vars w))) (w\<lparr>vars := vars w @ [v]\<rparr>)" by simp
    from R[OF this s] show ?thesis using NewVar by simp
  next
    case (ReadVar x)
    then show ?thesis using sp by simp
  next
    case (WriteVar x v)
    then show ?thesis using sp by (simp add: still_pending_def)
  next
    case (Log v)
    then show ?thesis using sp by (simp add: still_pending_def)
  qed
  have 2: "still_pending r (snd (notify (Suc n) ch a i v w))"
    if av: "avoids_loop r (Suc n) ch a i v w" and sp: "still_pending r w" for ch a i v w
  proof (cases "a < length (cells w) \<and> i < length (listeners ch (cells w ! a))")
    case True
    let ?p = "(listeners ch (cells w ! a) ! i) (listener_args ch v (cells w ! a))"
    have u: "notify (Suc n) ch a i v w = seq (run n ?p w) (\<lambda>u. notify n ch a (Suc i) v)"
      by (subst notify.simps) (simp only: True simp_thms if_True)
    have av': "avoids r n ?p w \<and>
        (case run n ?p w of (Done u, w') \<Rightarrow> avoids_loop r n ch a (Suc i) v w' | _ \<Rightarrow> True)"
      using av by (subst (asm) avoids_loop.simps) (simp only: True simp_thms if_True)
    then have a1: "avoids r n ?p w"
      and a2: "\<And>u w'. run n ?p w = (Done u, w') \<Longrightarrow> avoids_loop r n ch a (Suc i) v w'"
      by auto
    have "still_pending r (snd (seq (run n ?p w) (\<lambda>u. notify n ch a (Suc i) v)))"
      by (rule seq_pending) (auto intro: R N a1 a2 sp)
    with u show ?thesis by simp
  next
    case False
    have "notify (Suc n) ch a i v w = (Done VUndefined, w)"
      by (subst notify.simps) (simp only: False if_False)
    with sp show ?thesis by simp
  qed
  show ?case using 1 2 by blast
qed

lemma avoids_Bind_all:
  assumes "\<forall>n. avoids r n p w"
    and "\<forall>n v w'. run n p w = (Done v, w') \<longrightarrow> (\<forall>m. avoids r m (k v) w')"
  shows "\<forall>n. avoids r n (Bind p k) w"
proof
  fix n
  show "avoids r n (Bind p k) w"
  proof (cases n)
    case 0
    then show ?thesis by simp
  next
    case (Suc m)
    show ?thesis unfolding Suc avoids.simps
      using assms(1)[rule_format, of m] assms(2)[rule_format, of m]
      by (auto split: prod.splits outcome.splits)
  qed
qed

lemma avoids_Return_all: "\<forall>n. avoids r n (Return v) w"
proof
  fix n show "avoids r n (Return v) w" by (cases n) simp_all
qed

lemma avoids_NewPromise_all: "\<forall>n. avoids r n (NewPromise options) w"
proof
  fix n show "avoids r n (NewPromise options) w" by (cases n) simp_all
qed

lemma avoids_subscribe:
  assumes "still_pending r W"
  shows "\<forall>n. avoids r n (Succeed (VPromise r) cb) W" "\<forall>n. avoids r n (Fail (VPromise r) cb) W"
    "\<forall>n. avoids r n (Finish (VPromise r) cb) W" "\<forall>n. avoids r n (GetState (VPromise r)) W"
    "\<forall>n. avoids r n (GetData (VPromise r)) W"
proof -
  have "avoids r n (Succeed (VPromise r) cb) W \<and> avoids r n (Fail (VPromise r) cb) W \<and>
        avoids r n (Finish (VPromise r) cb) W \<and> avoids r n (GetState (VPromise r)) W \<and>
        avoids r n (GetData (VPromise r)) W" for n
    using assms by (cases n) (simp_all add: still_pending_def)
  then show "\<forall>n. avoids r n (Succeed (VPromise r) cb) W" "\<forall>n. avoids r n (Fail (VPromise r) cb) W"
    "\<forall>n. avoids r n (Finish (VPromise r) cb) W" "\<forall>n. avoids r n (GetState (VPromise r)) W"
    "\<forall>n. avoids r n (GetData (VPromise r)) W"
    by blast+
qed

lemma run_subscribe:
  assumes "still_pending r W"
  shows "\<forall>n v W'. run n (Succeed (VPromise r) cb) W = (Done v, W') \<longrightarrow> still_pending r W'"
    "\<forall>n v W'. run n (Fail (VPromise r) cb) W = (Done v, W') \<longrightarrow> still_pending r W'"
    "\<forall>n v W'. run n (Finish (VPromise r) cb) W = (Done v, W') \<longrightarrow> still_pending r W'"
proof -
  have "(run n (Succeed (VPromise r) cb) W = (Done v, W') \<longrightarrow> still_pending r W') \<and>
        (run n (Fail (VPromise r) cb) W = (Done v, W') \<longrightarrow> still_pending r W') \<and>
        (run n (Finish (VPromise r) cb) W = (Done v, W') \<longrightarrow> still_pending r W')" for n v W'
    using assms by (cases n) (auto simp: still_pending_def set_cell_def)
  then show "\<forall>n v W'. run n (Succeed (VPromise r) cb) W = (Done v, W') \<longrightarrow> still_pending r W'"
    "\<forall>n v W'. run n (Fail (VPromise r) cb) W = (Done v, W') \<longrightarrow> still_pending r W'"
    "\<forall>n v W'. run n (Finish (VPromise r) cb) W = (Done v, W') \<longrightarrow> still_pending r W'"
    by blast+
qed

lemma run_NewPromise_pending:
  assumes "still_pending r W"
  shows "\<forall>n v W'. run n (NewPromise options) W = (Done v, W') \<longrightarrow> still_pending r W'"
proof (intro allI impI)
  fix n v W' assume "run n (NewPromise options) W = (Done v, W')"
  then show "still_pending r W'" using assms
    by (cases n) (auto simp: still_pending_def nth_append)
qed

text \<open>Two registrations on the cell, then a value: the shape of \<^verbatim>\<open>fmap\<close> and \<^verbatim>\<open>join\<close>.\<close>

lemma avoids_two_subscriptions:
  assumes s: "still_pending r W"
  shows "\<forall>n. avoids r n (Bind (Succeed (VPromise r) cb1)
                 (\<lambda>_. Bind (Fail (VPromise r) cb2) (\<lambda>_. Return v))) W"
proof (rule avoids_Bind_all[OF avoids_subscribe(1)[OF s]], intro allI impI)
  fix n u w2 m assume "run n (Succeed (VPromise r) cb1) W = (Done u, w2)"
  with run_subscribe(1)[OF s] have s2: "still_pending r w2" by blast
  have "\<forall>m. avoids r m (Bind (Fail (VPromise r) cb2) (\<lambda>_. Return v)) w2"
    by (rule avoids_Bind_all[OF avoids_subscribe(2)[OF s2]]) (simp add: avoids_Return_all)
  then show "avoids r m (Bind (Fail (VPromise r) cb2) (\<lambda>_. Return v)) w2" by blast
qed

lemma avoids_fmap:
  assumes "still_pending r W"
  shows "\<forall>n. avoids r n (fmap g (VPromise r)) W"
  unfolding fmap_def promise_def
proof (rule avoids_Bind_all[OF avoids_NewPromise_all], intro allI impI)
  fix n v w' m assume "run n (NewPromise None) W = (Done v, w')"
  with run_NewPromise_pending[OF assms] have s: "still_pending r w'" by blast
  show "avoids r m (Bind (Succeed (VPromise r) (fmap_success g v))
                 (\<lambda>_. Bind (Fail (VPromise r) (forward_failure v)) (\<lambda>_. Return v))) w'"
    using avoids_two_subscriptions[OF s] by blast
qed

lemma avoids_join:
  assumes "still_pending r W"
  shows "\<forall>n. avoids r n (join (VPromise r)) W"
  unfolding join_def promise_def
proof (rule avoids_Bind_all[OF avoids_NewPromise_all], intro allI impI)
  fix n v w' m assume "run n (NewPromise None) W = (Done v, w')"
  with run_NewPromise_pending[OF assms] have s: "still_pending r w'" by blast
  show "avoids r m (Bind (Succeed (VPromise r) (join_outer v))
                 (\<lambda>_. Bind (Fail (VPromise r) (forward_failure v)) (\<lambda>_. Return v))) w'"
    using avoids_two_subscriptions[OF s] by blast
qed



end
